theory Spec2Isabelle
  imports Main
begin

section \<open>DBWrapper: a promise-based wrapper around IndexedDB\<close>

text \<open>
  The source is \<^verbatim>\<open>packages/workbox-core/src/_private/DBWrapper.ts\<close>. Its methods are
  asynchronous: each registers closures on a timer, on an open request, on a transaction
  or on a cursor request, and the browser later runs these closures one at a time, in the
  order the events occur. A method is therefore modelled by the state its closures
  share, a function per closure, and a fold over the list of events in the order in
  which the event loop delivers them. What the browser does (which events occur, which
  records a cursor visits, whether a native call raises) is a parameter of every
  definition; what the closures do is translated from the source.
\<close>

subsection \<open>Values, errors, promises\<close>

type_synonym conn = nat
  \<comment> \<open>an \<^verbatim>\<open>IDBDatabase\<close> handle, as the engine hands it out\<close>

type_synonym key = int
  \<comment> \<open>an \<^verbatim>\<open>IDBValidKey\<close>\<close>

datatype error =
    OpenTimedOut
    \<comment> \<open>\<^verbatim>\<open>new Error('The open request was blocked and timed out')\<close>\<close>
  | Native nat
    \<comment> \<open>an error object of the engine: \<^verbatim>\<open>openRequest.error\<close>, \<^verbatim>\<open>txn.error\<close>,
        an exception of a native call\<close>
  | Thrown nat
    \<comment> \<open>an exception raised by a callback the caller supplied\<close>
  | TypeError
    \<comment> \<open>calling or reading through \<^verbatim>\<open>undefined\<close>\<close>

datatype jsval =
    Undefined
  | WrapperRef
    \<comment> \<open>\<^verbatim>\<open>this\<close>, the wrapper instance\<close>
  | ConnRef conn
  | KeyVal key
  | Data nat
    \<comment> \<open>a stored value, or the result of a native request\<close>
  | CursorRef
    \<comment> \<open>a reference to the cursor object of the running request\<close>
  | Arr "jsval list"
  | Thenable nat
    \<comment> \<open>a promise (or other thenable) that the caller made; the number names it\<close>

text \<open>
  A promise is resolved at most once: \<^verbatim>\<open>resolve\<close> and \<^verbatim>\<open>reject\<close> do nothing on a
  promise that is no longer pending. A promise that was resolved with a thenable is
  \<open>Following\<close> it: it is not settled, no call of \<^verbatim>\<open>resolve\<close> or \<^verbatim>\<open>reject\<close> changes
  it any more, and it settles when and as the thenable does.
\<close>

datatype 'a promise = Pending | Fulfilled 'a | Rejected error | Following nat

text \<open>\<^verbatim>\<open>resolve\<close> with a value that is not a thenable.\<close>

fun resolve :: "'a promise \<Rightarrow> 'a \<Rightarrow> 'a promise" where
  "resolve Pending v = Fulfilled v"
| "resolve (Fulfilled u) v = Fulfilled u"
| "resolve (Rejected e) v = Rejected e"
| "resolve (Following i) v = Following i"

fun reject :: "'a promise \<Rightarrow> error \<Rightarrow> 'a promise" where
  "reject Pending e = Rejected e"
| "reject (Fulfilled u) e = Fulfilled u"
| "reject (Rejected d) e = Rejected d"
| "reject (Following i) e = Following i"

fun settled :: "'a promise \<Rightarrow> bool" where
  "settled Pending = False"
| "settled (Fulfilled u) = True"
| "settled (Rejected e) = True"
| "settled (Following i) = False"

fun is_thenable :: "jsval \<Rightarrow> bool" where
  "is_thenable (Thenable i) = True"
| "is_thenable v = False"

text \<open>\<^verbatim>\<open>resolve\<close> with any value: a thenable is adopted, not delivered.\<close>

fun resolve_value :: "jsval promise \<Rightarrow> jsval \<Rightarrow> jsval promise" where
  "resolve_value Pending (Thenable i) = Following i"
| "resolve_value p v = resolve p v"

subsection \<open>The wrapper and the calls it makes on the engine\<close>

datatype mode = ReadOnly | ReadWrite
  \<comment> \<open>\<^verbatim>\<open>'readonly'\<close> and \<^verbatim>\<open>'readwrite'\<close>\<close>

datatype store_method =
  Get | Count | GetKey | GetAll | GetAllKeys | Add | Put | Clear | Delete
  \<comment> \<open>\<^verbatim>\<open>IDBObjectStoreMethods\<close>\<close>

datatype primitive = NativeMethod store_method | OpenCursor
  \<comment> \<open>what a transaction callback invokes on the object store\<close>

text \<open>
  The wrapper's fields are \<open>db\<close> (\<^verbatim>\<open>this._db\<close>) and \<open>has_onupgradeneeded\<close>
  (whether \<^verbatim>\<open>this._onupgradeneeded\<close> is a function). The other fields record the native
  calls made so far: \<^verbatim>\<open>indexedDB.open\<close>, \<^verbatim>\<open>close()\<close> on a handle,
  \<^verbatim>\<open>openRequest.transaction.abort()\<close>, the upgrade callback, the assignment of
  \<^verbatim>\<open>db.onversionchange\<close>, and \<^verbatim>\<open>this._db.transaction(storeNames, type)\<close> together
  with the primitives its callback invoked on it.
\<close>

record wrapper =
  db :: "conn option"
  has_onupgradeneeded :: bool
  native_opens :: nat
  closed :: "conn list"
  upgrade_aborts :: "conn list"
  upgrade_callbacks :: "conn list"
  versionchange_bound :: "conn list"
  txns :: "(string list \<times> mode \<times> primitive list) list"

subsection \<open>open\<close>

text \<open>
  The events of one open attempt: the timer set by \<^verbatim>\<open>setTimeout\<close> runs, or the
  open request fires \<^verbatim>\<open>error\<close>, \<^verbatim>\<open>upgradeneeded\<close> or \<^verbatim>\<open>success\<close>
  (the last two with \<^verbatim>\<open>openRequest.result\<close>).
\<close>

datatype open_event = TimerFires | OnError error | OnUpgradeNeeded conn | OnSuccess conn

record open_state =
  w :: wrapper
  openRequestTimedOut :: bool
  inner :: "conn promise"
    \<comment> \<open>the promise built by \<^verbatim>\<open>new Promise\<close>\<close>
  outer :: "jsval promise"
    \<comment> \<open>the promise of the call of \<^verbatim>\<open>open()\<close>\<close>

fun open_handler :: "open_event \<Rightarrow> open_state \<Rightarrow> open_state" where
  "open_handler TimerFires s =
     s\<lparr>openRequestTimedOut := True, inner := reject (inner s) OpenTimedOut\<rparr>"
| "open_handler (OnError e) s = s\<lparr>inner := reject (inner s) e\<rparr>"
| "open_handler (OnUpgradeNeeded c) s =
     (if openRequestTimedOut s then
        s\<lparr>w := (w s)\<lparr>upgrade_aborts := upgrade_aborts (w s) @ [c],
                        closed := closed (w s) @ [c]\<rparr>\<rparr>
      else if has_onupgradeneeded (w s) then
        s\<lparr>w := (w s)\<lparr>upgrade_callbacks := upgrade_callbacks (w s) @ [c]\<rparr>\<rparr>
      else s)"
| "open_handler (OnSuccess c) s =
     (if openRequestTimedOut s then
        s\<lparr>w := (w s)\<lparr>closed := closed (w s) @ [c]\<rparr>\<rparr>
      else
        s\<lparr>w := (w s)\<lparr>versionchange_bound := versionchange_bound (w s) @ [c]\<rparr>,
          inner := resolve (inner s) c\<rparr>)"

text \<open>
  The rest of \<^verbatim>\<open>open()\<close> after \<^verbatim>\<open>await\<close>: it runs once, as a microtask,
  right after the handler that settled the inner promise and before the next event.
  A fulfilled promise is assigned to \<^verbatim>\<open>this._db\<close> and the call returns
  \<^verbatim>\<open>this\<close>; a rejected one makes \<^verbatim>\<open>await\<close> raise, so nothing is assigned.
\<close>

definition open_resume :: "open_state \<Rightarrow> open_state" where
  "open_resume s =
     (case inner s of
        Pending \<Rightarrow> s
      | Fulfilled c \<Rightarrow> s\<lparr>w := (w s)\<lparr>db := Some c\<rparr>, outer := resolve (outer s) WrapperRef\<rparr>
      | Rejected e \<Rightarrow> s\<lparr>outer := reject (outer s) e\<rparr>
      | Following i \<Rightarrow> s)"

definition open_step :: "open_state \<Rightarrow> open_event \<Rightarrow> open_state" where
  "open_step s ev =
     (let s' = open_handler ev s in if inner s = Pending then open_resume s' else s')"

definition open_init :: "wrapper \<Rightarrow> open_state" where
  "open_init wr =
     \<lparr>w = wr\<lparr>native_opens := Suc (native_opens wr)\<rparr>, openRequestTimedOut = False,
      inner = Pending, outer = Pending\<rparr>"

definition open_run :: "wrapper \<Rightarrow> open_event list \<Rightarrow> open_state" where
  "open_run wr evs = foldl open_step (open_init wr) evs"

text \<open>
  \<^verbatim>\<open>open()\<close>: with a connection held it returns at once (the promise of the call is
  fulfilled with \<^verbatim>\<open>undefined\<close>); otherwise it issues \<^verbatim>\<open>indexedDB.open\<close> and the
  events \<open>evs\<close> follow. (Should \<^verbatim>\<open>indexedDB.open\<close> itself raise, the executor's
  exception rejects the promise as an error event that comes first does.)
\<close>

definition "open" :: "wrapper \<Rightarrow> open_event list \<Rightarrow> wrapper \<times> jsval promise" where
  "open wr evs =
     (if db wr \<noteq> None then (wr, Fulfilled Undefined)
      else (w (open_run wr evs), outer (open_run wr evs)))"

subsection \<open>close\<close>

definition close :: "wrapper \<Rightarrow> wrapper" where
  "close wr =
     (case db wr of
        None \<Rightarrow> wr
      | Some c \<Rightarrow> wr\<lparr>closed := closed wr @ [c], db := None\<rparr>)"

subsection \<open>transaction\<close>

text \<open>
  The promise of \<^verbatim>\<open>transaction()\<close> is touched by three closures: \<^verbatim>\<open>done\<close>, handed
  to the callback (\<^verbatim>\<open>(value) => resolve(value)\<close>), \<^verbatim>\<open>txn.oncomplete\<close>
  (\<^verbatim>\<open>resolve()\<close>) and \<^verbatim>\<open>txn.onabort\<close> (\<^verbatim>\<open>reject(txn.error)\<close>). The value
  passed to \<^verbatim>\<open>done\<close> is any value of the caller, so it may be a thenable, which
  \<^verbatim>\<open>resolve\<close> adopts. The last two events are the thenable \<open>i\<close> settling; they matter
  to a promise that follows \<open>i\<close> and to no other.
\<close>

datatype txn_event =
  CallbackDone jsval | OnComplete | OnAbort error
| ThenableFulfils nat jsval | ThenableRejects nat error

fun txn_handler :: "jsval promise \<Rightarrow> txn_event \<Rightarrow> jsval promise" where
  "txn_handler p (CallbackDone v) = resolve_value p v"
| "txn_handler p OnComplete = resolve p Undefined"
| "txn_handler p (OnAbort e) = reject p e"
| "txn_handler (Following i) (ThenableFulfils j v) =
     (if i = j then resolve_value Pending v else Following i)"
| "txn_handler (Following i) (ThenableRejects j e) =
     (if i = j then Rejected e else Following i)"
| "txn_handler p (ThenableFulfils j v) = p"
| "txn_handler p (ThenableRejects j e) = p"

text \<open>
  What a callback does while \<^verbatim>\<open>callback(txn, done)\<close> runs: the values it passes to
  \<^verbatim>\<open>done\<close>, in order, the exception that ends the run (if one does), and the
  primitives it invokes on the object store.
\<close>

record callback =
  sync_dones :: "jsval list"
  raised :: "error option"
  invoked :: "primitive list"

text \<open>
  The callback runs inside the executor of \<^verbatim>\<open>new Promise\<close>. The Promise constructor
  of ECMAScript calls the executor in a try block and rejects the promise with whatever
  the executor raises; so an exception of the callback reaches \<^verbatim>\<open>reject\<close>.
\<close>

definition executor :: "callback \<Rightarrow> jsval promise" where
  "executor cb =
     (let p = foldl resolve_value Pending (sync_dones cb)
      in case raised cb of None \<Rightarrow> p | Some e \<Rightarrow> reject p e)"

text \<open>
  \<^verbatim>\<open>transaction(storeNames, type, callback)\<close>. \<open>oevs\<close> are the events of the open
  attempt, should \<^verbatim>\<open>open()\<close> start one; \<open>txn_raises\<close> is the exception of
  \<^verbatim>\<open>this._db.transaction(storeNames, type)\<close>, if it raises (it is raised inside the
  executor too); \<open>evs\<close> are the later calls of the three closures and the settling of
  thenables, in the order of the events that trigger them. The promise of the call
  settles as the promise built by \<^verbatim>\<open>new Promise\<close> does, whose state is the second
  component of the result: \<open>Following i\<close> says that the call's promise is unsettled and
  that only the thenable \<open>i\<close> can settle it.
\<close>

definition transaction ::
  "wrapper \<Rightarrow> open_event list \<Rightarrow> string list \<Rightarrow> mode \<Rightarrow> error option \<Rightarrow> callback \<Rightarrow>
   txn_event list \<Rightarrow> wrapper \<times> jsval promise" where
  "transaction wr oevs storeNames type txn_raises cb evs =
     (case open wr oevs of
        (wr', Pending) \<Rightarrow> (wr', Pending)
      | (wr', Following i) \<Rightarrow> (wr', Pending)
      | (wr', Rejected e) \<Rightarrow> (wr', Rejected e)
      | (wr', Fulfilled u) \<Rightarrow>
          (case txn_raises of
             Some e \<Rightarrow> (wr', Rejected e)
           | None \<Rightarrow>
               (wr'\<lparr>txns := txns wr' @ [(storeNames, type, invoked cb)]\<rparr>,
                foldl txn_handler (executor cb) evs)))"

subsection \<open>Requests on an object store\<close>

text \<open>
  The engine's side of a transaction with one request: it delivers the request's
  \<^verbatim>\<open>success\<close> event, completes the transaction, or aborts it. An event the engine
  cannot deliver in a state (a success with no request outstanding, a completion with a
  request outstanding, anything after the transaction has finished) leaves the state as
  it is and calls nothing.
\<close>

datatype engine_event = ReqSuccess | TxnComplete | TxnAbort error

subsection \<open>_call\<close>

text \<open>
  The callback of \<^verbatim>\<open>_call\<close>: \<open>store_raises\<close> is the exception of
  \<^verbatim>\<open>txn.objectStore(storeName)\<close>, \<open>request\<close> the exception of the native method
  or the result its request will have.
\<close>

definition call_callback :: "store_method \<Rightarrow> error option \<Rightarrow> error + jsval \<Rightarrow> callback" where
  "call_callback m store_raises request =
     (case store_raises of
        Some e \<Rightarrow> \<lparr>sync_dones = [], raised = Some e, invoked = []\<rparr>
      | None \<Rightarrow>
          (case request of
             Inl e \<Rightarrow> \<lparr>sync_dones = [], raised = Some e, invoked = [NativeMethod m]\<rparr>
           | Inr r \<Rightarrow> \<lparr>sync_dones = [], raised = None, invoked = [NativeMethod m]\<rparr>))"

record call_state =
  call_pending :: bool
  call_active :: bool

fun call_step :: "jsval \<Rightarrow> call_state \<Rightarrow> engine_event \<Rightarrow> call_state \<times> txn_event list" where
  "call_step r s ReqSuccess =
     (if call_active s \<and> call_pending s
      then (s\<lparr>call_pending := False\<rparr>, [CallbackDone r]) else (s, []))"
| "call_step r s TxnComplete =
     (if call_active s \<and> \<not> call_pending s
      then (s\<lparr>call_active := False\<rparr>, [OnComplete]) else (s, []))"
| "call_step r s (TxnAbort e) =
     (if call_active s
      then (s\<lparr>call_active := False, call_pending := False\<rparr>, [OnAbort e]) else (s, []))"

fun call_run :: "jsval \<Rightarrow> call_state \<Rightarrow> engine_event list \<Rightarrow> txn_event list" where
  "call_run r s [] = []"
| "call_run r s (ev # evs) = snd (call_step r s ev) @ call_run r (fst (call_step r s ev)) evs"

definition call ::
  "wrapper \<Rightarrow> open_event list \<Rightarrow> store_method \<Rightarrow> string \<Rightarrow> mode \<Rightarrow> error option \<Rightarrow>
   error option \<Rightarrow> error + jsval \<Rightarrow> engine_event list \<Rightarrow> wrapper \<times> jsval promise" where
  "call wr oevs m storeName type txn_raises store_raises request evs =
     transaction wr oevs [storeName] type txn_raises (call_callback m store_raises request)
       (call_run (case request of Inl e \<Rightarrow> Undefined | Inr r \<Rightarrow> r)
          \<lparr>call_pending = (store_raises = None \<and> \<not> isl request), call_active = True\<rparr> evs)"

subsection \<open>getAllMatching\<close>

text \<open>
  A record as a cursor shows it: \<^verbatim>\<open>cursor.key\<close>, \<^verbatim>\<open>cursor.primaryKey\<close>,
  \<^verbatim>\<open>cursor.value\<close>.
\<close>

record entry =
  entry_key :: key
  entry_primaryKey :: key
  entry_value :: jsval

text \<open>
  The state of one scan. \<open>results\<close> is the array of the callback. The other fields are
  the engine's: \<open>remaining\<close> are the records that \<^verbatim>\<open>target.openCursor(query, direction)\<close>
  has yet to visit, in the order of the cursor (the index, the query and the direction are
  passed to the engine as they are, and decide this list); \<open>cursor_at\<close> is the record at
  which the cursor object stands (none before the first record and after the last one,
  where the cursor's key and value read \<^verbatim>\<open>undefined\<close>); \<open>request_pending\<close> says that
  the cursor's request has a success event outstanding; \<open>advances\<close> counts the calls of
  \<^verbatim>\<open>cursor.continue()\<close>. IndexedDB has one cursor object per request: every success
  event of the request has the same object as its result, moved to the next record.
\<close>

record scan_state =
  results :: "jsval list"
  cursor_at :: "entry option"
  remaining :: "entry list"
  request_pending :: bool
  txn_active :: bool
  advances :: nat

text \<open>
  \<^verbatim>\<open>count && results.length >= count\<close>: no count and a count of 0 are falsy. A count
  that is given is taken to be an integer, as a number of entries is.
\<close>

definition count_reached :: "int option \<Rightarrow> nat \<Rightarrow> bool" where
  "count_reached cnt n = (case cnt of None \<Rightarrow> False | Some c \<Rightarrow> c \<noteq> 0 \<and> c \<le> int n)"

text \<open>
  \<^verbatim>\<open>request.onsuccess\<close>. Its third argument is \<^verbatim>\<open>request.result\<close>: the cursor
  at a record, or \<^verbatim>\<open>null\<close>. With \<^verbatim>\<open>includeKeys\<close> the cursor object itself is
  pushed. The second component of the result lists the calls of \<^verbatim>\<open>done\<close>.
\<close>

fun cursor_onsuccess ::
  "int option \<Rightarrow> bool \<Rightarrow> entry option \<Rightarrow> scan_state \<Rightarrow> scan_state \<times> txn_event list" where
  "cursor_onsuccess cnt includeKeys None s = (s, [CallbackDone (Arr (results s))])"
| "cursor_onsuccess cnt includeKeys (Some e) s =
     (let rs = results s @ [if includeKeys then CursorRef else entry_value e] in
      if count_reached cnt (length rs) then (s\<lparr>results := rs\<rparr>, [CallbackDone (Arr rs)])
      else (s\<lparr>results := rs, request_pending := True, advances := Suc (advances s)\<rparr>, []))"

fun scan_step ::
  "int option \<Rightarrow> bool \<Rightarrow> scan_state \<Rightarrow> engine_event \<Rightarrow> scan_state \<times> txn_event list" where
  "scan_step cnt includeKeys s ReqSuccess =
     (if txn_active s \<and> request_pending s then
        (case remaining s of
           [] \<Rightarrow>
             cursor_onsuccess cnt includeKeys None
               (s\<lparr>request_pending := False, cursor_at := None\<rparr>)
         | e # es \<Rightarrow>
             cursor_onsuccess cnt includeKeys (Some e)
               (s\<lparr>request_pending := False, cursor_at := Some e, remaining := es\<rparr>))
      else (s, []))"
| "scan_step cnt includeKeys s TxnComplete =
     (if txn_active s \<and> \<not> request_pending s
      then (s\<lparr>txn_active := False\<rparr>, [OnComplete]) else (s, []))"
| "scan_step cnt includeKeys s (TxnAbort e) =
     (if txn_active s
      then (s\<lparr>txn_active := False, request_pending := False\<rparr>, [OnAbort e]) else (s, []))"

fun scan_run ::
  "int option \<Rightarrow> bool \<Rightarrow> scan_state \<Rightarrow> engine_event list \<Rightarrow> scan_state \<times> txn_event list" where
  "scan_run cnt includeKeys s [] = (s, [])"
| "scan_run cnt includeKeys s (ev # evs) =
     (let (s', calls) = scan_step cnt includeKeys s ev;
          (s'', calls') = scan_run cnt includeKeys s' evs
      in (s'', calls @ calls'))"

text \<open>
  The synchronous part of the callback: \<^verbatim>\<open>txn.objectStore\<close>, \<^verbatim>\<open>store.index\<close>
  and \<^verbatim>\<open>target.openCursor\<close>. \<open>cursor\<close> is the exception one of them raises, or the
  records the cursor opened will visit.
\<close>

definition scan_callback :: "error + entry list \<Rightarrow> callback" where
  "scan_callback cursor =
     (case cursor of
        Inl e \<Rightarrow> \<lparr>sync_dones = [], raised = Some e, invoked = []\<rparr>
      | Inr es \<Rightarrow> \<lparr>sync_dones = [], raised = None, invoked = [OpenCursor]\<rparr>)"

definition scan_init :: "error + entry list \<Rightarrow> scan_state" where
  "scan_init cursor =
     (case cursor of
        Inl e \<Rightarrow>
          \<lparr>results = [], cursor_at = None, remaining = [], request_pending = False,
           txn_active = True, advances = 0\<rparr>
      | Inr es \<Rightarrow>
          \<lparr>results = [], cursor_at = None, remaining = es, request_pending = True,
           txn_active = True, advances = 0\<rparr>)"

text \<open>
  \<^verbatim>\<open>getAllMatching(storeName, {index, query, direction, count, includeKeys})\<close>: the
  callback is run by \<^verbatim>\<open>transaction\<close> in mode \<^verbatim>\<open>'readonly'\<close>, and the calls that the
  scan makes on \<^verbatim>\<open>done\<close> and that the transaction makes on its handlers are the later
  events of that transaction. The third component of the result is the record at which the
  cursor object stands: an array built with \<^verbatim>\<open>includeKeys\<close> holds references to that
  object. (The cursor does not move once \<^verbatim>\<open>done\<close> has been called, so this is also
  where it stood when the promise was fulfilled.)
\<close>

definition getAllMatching ::
  "wrapper \<Rightarrow> open_event list \<Rightarrow> string \<Rightarrow> int option \<Rightarrow> bool \<Rightarrow> error option \<Rightarrow>
   error + entry list \<Rightarrow> engine_event list \<Rightarrow> wrapper \<times> jsval promise \<times> entry option" where
  "getAllMatching wr oevs storeName cnt includeKeys txn_raises cursor evs =
     (let (s, calls) = scan_run cnt includeKeys (scan_init cursor) evs;
          (wr', p) = transaction wr oevs [storeName] ReadOnly txn_raises (scan_callback cursor) calls
      in (wr', p, cursor_at s))"

subsection \<open>The polyfills getAll and getAllKeys\<close>

text \<open>An async function that awaits \<open>p\<close> and returns \<open>f\<close> of its value.\<close>

fun await_then :: "'a promise \<Rightarrow> ('a \<Rightarrow> error + 'b) \<Rightarrow> 'b promise" where
  "await_then Pending f = Pending"
| "await_then (Following i) f = Pending"
| "await_then (Rejected e) f = Rejected e"
| "await_then (Fulfilled v) f = (case f v of Inl e \<Rightarrow> Rejected e | Inr x \<Rightarrow> Fulfilled x)"

definition getAll ::
  "wrapper \<Rightarrow> open_event list \<Rightarrow> string \<Rightarrow> int option \<Rightarrow> error option \<Rightarrow>
   error + entry list \<Rightarrow> engine_event list \<Rightarrow> wrapper \<times> jsval promise" where
  "getAll wr oevs storeName cnt txn_raises cursor evs =
     (let (wr', p, cur) = getAllMatching wr oevs storeName cnt False txn_raises cursor evs
      in (wr', await_then p Inr))"

text \<open>
  \<^verbatim>\<open>entry.key\<close>: read through a reference to the cursor object it is the key of the
  record at which the cursor stands when the read happens.
\<close>

fun read_key :: "entry option \<Rightarrow> jsval \<Rightarrow> jsval" where
  "read_key (Some e) CursorRef = KeyVal (entry_key e)"
| "read_key cur v = Undefined"

fun map_keys :: "entry option \<Rightarrow> jsval \<Rightarrow> error + jsval" where
  "map_keys cur (Arr entries) = Inr (Arr (map (read_key cur) entries))"
| "map_keys cur v = Inl TypeError"

definition getAllKeys ::
  "wrapper \<Rightarrow> open_event list \<Rightarrow> string \<Rightarrow> int option \<Rightarrow> error option \<Rightarrow>
   error + entry list \<Rightarrow> engine_event list \<Rightarrow> wrapper \<times> jsval promise" where
  "getAllKeys wr oevs storeName cnt txn_raises cursor evs =
     (let (wr', p, cur) = getAllMatching wr oevs storeName cnt True txn_raises cursor evs
      in (wr', await_then p (map_keys cur)))"

subsection \<open>The methods installed on the prototype\<close>

text \<open>
  What \<^verbatim>\<open>DBWrapper.prototype[method]\<close> is bound to. The class body defines
  \<^verbatim>\<open>getKey\<close>, \<^verbatim>\<open>getAll\<close> and \<^verbatim>\<open>getAllKeys\<close>; it declares \<^verbatim>\<open>get\<close>,
  \<^verbatim>\<open>count\<close>, \<^verbatim>\<open>add\<close>, \<^verbatim>\<open>put\<close>, \<^verbatim>\<open>clear\<close> and \<^verbatim>\<open>delete\<close> as fields
  without a value, which defines nothing. The loop over \<^verbatim>\<open>methodsToWrap\<close> then binds
  each method that the platform has (\<^verbatim>\<open>method in IDBObjectStore.prototype\<close>, here
  \<open>native method\<close>) to a function that calls \<^verbatim>\<open>_call\<close> with the method and its mode.
\<close>

datatype impl = PolyfillGetKey | PolyfillGetAll | PolyfillGetAllKeys | Wrapped store_method mode

definition class_methods :: "store_method \<Rightarrow> impl option" where
  "class_methods =
     [GetKey \<mapsto> PolyfillGetKey, GetAll \<mapsto> PolyfillGetAll, GetAllKeys \<mapsto> PolyfillGetAllKeys]"

definition methodsToWrap :: "(mode \<times> store_method list) list" where
  "methodsToWrap =
     [(ReadOnly, [Get, Count, GetKey, GetAll, GetAllKeys]),
      (ReadWrite, [Add, Put, Clear, Delete])]"

definition install ::
  "(store_method \<Rightarrow> bool) \<Rightarrow> mode \<Rightarrow> (store_method \<Rightarrow> impl option) \<Rightarrow> store_method \<Rightarrow>
   store_method \<Rightarrow> impl option" where
  "install native mode proto m = (if native m then proto(m \<mapsto> Wrapped m mode) else proto)"

definition prototype :: "(store_method \<Rightarrow> bool) \<Rightarrow> store_method \<Rightarrow> impl option" where
  "prototype native =
     foldl (\<lambda>proto (mode, methods). foldl (install native mode) proto methods)
       class_methods methodsToWrap"

text \<open>
  What the engine does during one call of a method of the wrapper: the events of the open
  attempt, the exceptions of \<^verbatim>\<open>this._db.transaction\<close> and of
  \<^verbatim>\<open>txn.objectStore\<close>, the outcome of the native method, the outcome of opening a
  cursor, and the events of the transaction.
\<close>

record env =
  env_open :: "open_event list"
  env_txn_raises :: "error option"
  env_store_raises :: "error option"
  env_request :: "error + jsval"
  env_cursor :: "error + entry list"
  env_events :: "engine_event list"

subsection \<open>The polyfill getKey\<close>

text \<open>
  \<^verbatim>\<open>getKey\<close> calls \<^verbatim>\<open>this.getAllKeys(storeName, query, 1)\<close>, which is the method
  bound on the prototype: the native \<^verbatim>\<open>getAllKeys\<close> through \<^verbatim>\<open>_call\<close> on a platform
  that has it, the polyfill otherwise.
\<close>

definition this_getAllKeys ::
  "(store_method \<Rightarrow> bool) \<Rightarrow> wrapper \<Rightarrow> string \<Rightarrow> int option \<Rightarrow> env \<Rightarrow>
   wrapper \<times> jsval promise" where
  "this_getAllKeys native wr storeName cnt en =
     (case prototype native GetAllKeys of
        Some (Wrapped m' mode) \<Rightarrow>
          call wr (env_open en) m' storeName mode (env_txn_raises en)
            (env_store_raises en) (env_request en) (env_events en)
      | _ \<Rightarrow>
          getAllKeys wr (env_open en) storeName cnt (env_txn_raises en) (env_cursor en)
            (env_events en))"

text \<open>\<^verbatim>\<open>[0]\<close> of the value awaited.\<close>

fun first_element :: "jsval \<Rightarrow> error + jsval" where
  "first_element (Arr []) = Inr Undefined"
| "first_element (Arr (x # xs)) = Inr x"
| "first_element Undefined = Inl TypeError"
| "first_element v = Inr Undefined"

definition getKey ::
  "(store_method \<Rightarrow> bool) \<Rightarrow> wrapper \<Rightarrow> string \<Rightarrow> env \<Rightarrow> wrapper \<times> jsval promise" where
  "getKey native wr storeName en =
     (let (wr', p) = this_getAllKeys native wr storeName (Some 1) en
      in (wr', await_then p first_element))"

subsection \<open>Calling a method of the wrapper\<close>

text \<open>
  A call \<^verbatim>\<open>wrapper[method](storeName, ...args)\<close>; \<open>cnt\<close> is the \<^verbatim>\<open>count\<close> among
  the arguments. Calling a method that is not bound raises a \<^verbatim>\<open>TypeError\<close>.
\<close>

definition invoke ::
  "(store_method \<Rightarrow> bool) \<Rightarrow> wrapper \<Rightarrow> store_method \<Rightarrow> string \<Rightarrow> int option \<Rightarrow> env \<Rightarrow>
   error + wrapper \<times> jsval promise" where
  "invoke native wr m storeName cnt en =
     (case prototype native m of
        None \<Rightarrow> Inl TypeError
      | Some (Wrapped m' mode) \<Rightarrow>
          Inr (call wr (env_open en) m' storeName mode (env_txn_raises en)
                 (env_store_raises en) (env_request en) (env_events en))
      | Some PolyfillGetKey \<Rightarrow> Inr (getKey native wr storeName en)
      | Some PolyfillGetAll \<Rightarrow>
          Inr (getAll wr (env_open en) storeName cnt (env_txn_raises en) (env_cursor en)
                 (env_events en))
      | Some PolyfillGetAllKeys \<Rightarrow>
          Inr (getAllKeys wr (env_open en) storeName cnt (env_txn_raises en) (env_cursor en)
                 (env_events en)))"

text \<open>The wrapper as the constructor leaves it: no connection, nothing called yet.\<close>

definition new_wrapper :: "bool \<Rightarrow> wrapper" where
  "new_wrapper upgrade =
     \<lparr>db = None, has_onupgradeneeded = upgrade, native_opens = 0, closed = [],
      upgrade_aborts = [], upgrade_callbacks = [], versionchange_bound = [], txns = []\<rparr>"

subsection \<open>Shapes of event lists\<close>

fun is_upgrade :: "open_event \<Rightarrow> bool" where
  "is_upgrade (OnUpgradeNeeded c) = True"
| "is_upgrade ev = False"

fun is_timer :: "open_event \<Rightarrow> bool" where
  "is_timer TimerFires = True"
| "is_timer ev = False"

fun successes :: "open_event list \<Rightarrow> conn list" where
  "successes [] = []"
| "successes (OnSuccess c # evs) = c # successes evs"
| "successes (ev # evs) = successes evs"

subsection \<open>Auxiliary notions for the statements about scans\<close>

text \<open>The bound that a positive count \<open>n\<close> keeps on a scan: at most \<open>n\<close> results, no more
  advances than results and fewer than \<open>n\<close>, and fewer than \<open>n\<close> results while a success
  is outstanding.\<close>

definition scan_inv :: "nat \<Rightarrow> scan_state \<Rightarrow> bool" where
  "scan_inv n s \<longleftrightarrow>
     length (results s) \<le> n \<and> advances s \<le> length (results s) \<and> advances s < n \<and>
     (request_pending s \<longrightarrow> length (results s) < n)"

text \<open>What a scan pushes for a record.\<close>

definition item :: "bool \<Rightarrow> entry \<Rightarrow> jsval" where
  "item includeKeys e = (if includeKeys then CursorRef else entry_value e)"

text \<open>The records a scan visits when it starts from \<open>k\<close> results, and the record at which
  it stops by its count (none when it runs to the end of the records).\<close>

fun visited :: "int option \<Rightarrow> nat \<Rightarrow> entry list \<Rightarrow> entry list" where
  "visited cnt k [] = []"
| "visited cnt k (e # es) =
     (if count_reached cnt (Suc k) then [e] else e # visited cnt (Suc k) es)"

fun stops_at :: "int option \<Rightarrow> nat \<Rightarrow> entry list \<Rightarrow> entry option" where
  "stops_at cnt k [] = None"
| "stops_at cnt k (e # es) =
     (if count_reached cnt (Suc k) then Some e else stops_at cnt (Suc k) es)"

text \<open>The example of the specification: a store whose records have the keys 1 to 5, and an
  engine that opens the connection, opens the transaction and lets the request succeed as
  often as it is asked to.\<close>

definition books :: "entry list" where
  "books =
     [\<lparr>entry_key = 1, entry_primaryKey = 1, entry_value = Data 101\<rparr>,
      \<lparr>entry_key = 2, entry_primaryKey = 2, entry_value = Data 102\<rparr>,
      \<lparr>entry_key = 3, entry_primaryKey = 3, entry_value = Data 103\<rparr>,
      \<lparr>entry_key = 4, entry_primaryKey = 4, entry_value = Data 104\<rparr>,
      \<lparr>entry_key = 5, entry_primaryKey = 5, entry_value = Data 105\<rparr>]"

definition books_env :: env where
  "books_env =
     \<lparr>env_open = [OnSuccess 1], env_txn_raises = None, env_store_raises = None,
      env_request = Inr (Data 1), env_cursor = Inr books,
      env_events = [ReqSuccess, ReqSuccess, ReqSuccess, ReqSuccess, ReqSuccess, ReqSuccess,
        TxnComplete]\<rparr>"

section \<open>Properties of open and close\<close>

text \<open>Before the timer and before the request's outcome, only upgrades can occur; they
  leave both promises pending and the connection field as it was.\<close>

lemma foldl_open_step_upgrades:
  "list_all is_upgrade pre \<Longrightarrow> inner s = Pending \<Longrightarrow> outer s = Pending \<Longrightarrow>
   \<not> openRequestTimedOut s \<Longrightarrow>
   inner (foldl open_step s pre) = Pending \<and> outer (foldl open_step s pre) = Pending \<and>
   \<not> openRequestTimedOut (foldl open_step s pre) \<and>
   db (w (foldl open_step s pre)) = db (w s) \<and>
   closed (w (foldl open_step s pre)) = closed (w s) \<and>
   native_opens (w (foldl open_step s pre)) = native_opens (w s) \<and>
   versionchange_bound (w (foldl open_step s pre)) = versionchange_bound (w s)"
proof (induction pre arbitrary: s)
  case Nil
  then show ?case by simp
next
  case (Cons ev pre)
  from Cons.prems obtain c where ev: "ev = OnUpgradeNeeded c"
    by (cases ev) auto
  have st: "inner (open_step s ev) = Pending" "outer (open_step s ev) = Pending"
    "\<not> openRequestTimedOut (open_step s ev)" "db (w (open_step s ev)) = db (w s)"
    "closed (w (open_step s ev)) = closed (w s)"
    "native_opens (w (open_step s ev)) = native_opens (w s)"
    "versionchange_bound (w (open_step s ev)) = versionchange_bound (w s)"
    using Cons.prems by (simp_all add: ev open_step_def open_resume_def)
  from Cons.prems have "list_all is_upgrade pre" by simp
  from Cons.IH[OF this st(1) st(2) st(3)] st show ?case by simp
qed

text \<open>Once the timer has rejected, every later event keeps the rejection and the
  connection field, and a success closes the handle it brings.\<close>

lemma open_step_timed_out:
  assumes "openRequestTimedOut s" "inner s = Rejected e" "outer s = Rejected e"
  shows "openRequestTimedOut (open_step s ev) \<and> inner (open_step s ev) = Rejected e \<and>
     outer (open_step s ev) = Rejected e \<and> db (w (open_step s ev)) = db (w s) \<and>
     native_opens (w (open_step s ev)) = native_opens (w s) \<and>
     versionchange_bound (w (open_step s ev)) = versionchange_bound (w s) \<and>
     set (closed (w s)) \<union> set (successes [ev]) \<subseteq> set (closed (w (open_step s ev)))"
  using assms by (cases ev) (auto simp: open_step_def)

lemma foldl_open_step_timed_out:
  "openRequestTimedOut s \<Longrightarrow> inner s = Rejected e \<Longrightarrow> outer s = Rejected e \<Longrightarrow>
   openRequestTimedOut (foldl open_step s post) \<and>
   inner (foldl open_step s post) = Rejected e \<and>
   outer (foldl open_step s post) = Rejected e \<and>
   db (w (foldl open_step s post)) = db (w s) \<and>
   native_opens (w (foldl open_step s post)) = native_opens (w s) \<and>
   versionchange_bound (w (foldl open_step s post)) = versionchange_bound (w s) \<and>
   set (closed (w s)) \<union> set (successes post) \<subseteq> set (closed (w (foldl open_step s post)))"
proof (induction post arbitrary: s)
  case Nil
  then show ?case by simp
next
  case (Cons ev post)
  note st = open_step_timed_out[OF Cons.prems, of ev]
  from st have a: "openRequestTimedOut (open_step s ev)" "inner (open_step s ev) = Rejected e"
    "outer (open_step s ev) = Rejected e" by simp_all
  have "successes (ev # post) = successes [ev] @ successes post"
    by (cases ev) simp_all
  with Cons.IH[OF a] st show ?case by auto
qed

lemma successes_mem: "OnSuccess c \<in> set evs \<Longrightarrow> c \<in> set (successes evs)"
  by (induction evs rule: successes.induct) auto

text \<open>
  C1. \<^verbatim>\<open>open()\<close> is called with no connection held, so a native open is issued. The
  timer runs before the request reports success or failure (before it, at most upgrade
  events occur: \<open>pre\<close>). Then, whatever events \<open>post\<close> follow, the call's promise is
  rejected with the timeout error, \<^verbatim>\<open>this._db\<close> stays empty, no handle gets the
  wrapper's version-change handler, and every handle that a later success event brings has
  \<^verbatim>\<open>close()\<close> called on it. "After \<^verbatim>\<open>OPEN_TIMEOUT\<close> has elapsed" is read as "after
  the timer's callback has run": the source decides by the flag the callback sets.
\<close>

theorem open_timeout:
  assumes "db wr = None" and "list_all is_upgrade pre"
  shows "snd (open wr (pre @ TimerFires # post)) = Rejected OpenTimedOut \<and>
     db (fst (open wr (pre @ TimerFires # post))) = None \<and>
     versionchange_bound (fst (open wr (pre @ TimerFires # post))) = versionchange_bound wr \<and>
     (\<forall>c. OnSuccess c \<in> set post \<longrightarrow>
        c \<in> set (closed (fst (open wr (pre @ TimerFires # post)))))"
proof -
  let ?s0 = "open_init wr"
  let ?s1 = "foldl open_step ?s0 pre"
  let ?s2 = "open_step ?s1 TimerFires"
  have i: "inner ?s0 = Pending" "outer ?s0 = Pending" "\<not> openRequestTimedOut ?s0"
    by (simp_all add: open_init_def)
  note p = foldl_open_step_upgrades[OF assms(2) i]
  from p have t: "openRequestTimedOut ?s2" "inner ?s2 = Rejected OpenTimedOut"
    "outer ?s2 = Rejected OpenTimedOut"
    by (simp_all add: open_step_def open_resume_def)
  from p have d: "db (w ?s2) = db wr" "versionchange_bound (w ?s2) = versionchange_bound wr"
    by (simp_all add: open_step_def open_resume_def open_init_def)
  note q = foldl_open_step_timed_out[OF t, of post]
  have run: "open_run wr (pre @ TimerFires # post) = foldl open_step ?s2 post"
    by (simp add: open_run_def)
  show ?thesis
    using assms(1) q d successes_mem[of _ post] by (auto simp: open_def run)
qed

theorem open_timeout_witness:
  "db (new_wrapper True) = None \<and> list_all is_upgrade [OnUpgradeNeeded 1] \<and>
   open (new_wrapper True) ([OnUpgradeNeeded 1] @ TimerFires # [OnSuccess 1]) =
     (\<lparr>db = None, has_onupgradeneeded = True, native_opens = 1, closed = [1],
       upgrade_aborts = [], upgrade_callbacks = [1], versionchange_bound = [],
       txns = []\<rparr>, Rejected OpenTimedOut)"
  using open_timeout[of "new_wrapper True" "[OnUpgradeNeeded 1]" "[OnSuccess 1]"]
  by (simp add: open_def open_run_def open_init_def open_step_def open_resume_def
      new_wrapper_def)

text \<open>
  C3, as amended. With a connection held, \<^verbatim>\<open>open()\<close> changes nothing in the wrapper:
  the connection field is the one it was and no native call is added, so no second
  \<^verbatim>\<open>indexedDB.open\<close> is issued; and its promise is fulfilled. The value of the
  promise is not the connection: see the counterexample below.
\<close>

theorem open_when_held:
  "db wr = Some c \<Longrightarrow> fst (open wr evs) = wr \<and> (\<exists>v. snd (open wr evs) = Fulfilled v)"
  by (simp add: open_def)

theorem open_when_held_witness:
  "db (fst (open (new_wrapper False) [OnSuccess 7])) = Some 7 \<and>
   fst (open (fst (open (new_wrapper False) [OnSuccess 7])) [OnSuccess 8]) =
     fst (open (new_wrapper False) [OnSuccess 7]) \<and>
   native_opens (fst (open (fst (open (new_wrapper False) [OnSuccess 7])) [OnSuccess 8])) = 1 \<and>
   (\<exists>v. snd (open (fst (open (new_wrapper False) [OnSuccess 7])) [OnSuccess 8]) = Fulfilled v)"
  using open_when_held[of "fst (open (new_wrapper False) [OnSuccess 7])" 7 "[OnSuccess 8]"]
  by (simp add: open_def open_run_def open_init_def open_step_def open_resume_def
      new_wrapper_def)

text \<open>
  C3 as stated fails: the first \<^verbatim>\<open>open()\<close> of a new wrapper, whose request succeeds
  with handle 7, is fulfilled with the wrapper (\<^verbatim>\<open>return this\<close>); the second call is
  fulfilled with \<^verbatim>\<open>undefined\<close> (\<^verbatim>\<open>if (this._db) return\<close>), which is neither the
  connection nor what the first call delivered.
\<close>

theorem open_when_held_counterexample:
  "db (fst (open (new_wrapper False) [OnSuccess 7])) = Some 7 \<and>
   snd (open (new_wrapper False) [OnSuccess 7]) = Fulfilled WrapperRef \<and>
   snd (open (fst (open (new_wrapper False) [OnSuccess 7])) [OnSuccess 8]) =
     Fulfilled Undefined \<and>
   snd (open (fst (open (new_wrapper False) [OnSuccess 7])) [OnSuccess 8]) \<noteq>
     Fulfilled (ConnRef 7) \<and>
   snd (open (fst (open (new_wrapper False) [OnSuccess 7])) [OnSuccess 8]) \<noteq>
     snd (open (new_wrapper False) [OnSuccess 7])"
  by (simp add: open_def open_run_def open_init_def open_step_def open_resume_def
      new_wrapper_def)

text \<open>After a success that came in time, the timer still runs; it changes neither the
  promises nor the wrapper.\<close>

lemma foldl_open_step_timers:
  "list_all is_timer post \<Longrightarrow> inner s = Fulfilled c \<Longrightarrow>
   inner (foldl open_step s post) = Fulfilled c \<and>
   outer (foldl open_step s post) = outer s \<and> w (foldl open_step s post) = w s"
proof (induction post arbitrary: s)
  case Nil
  then show ?case by simp
next
  case (Cons ev post)
  from Cons.prems have ev: "ev = TimerFires" by (cases ev) auto
  have st: "inner (open_step s ev) = Fulfilled c" "outer (open_step s ev) = outer s"
    "w (open_step s ev) = w s"
    using Cons.prems by (simp_all add: ev open_step_def)
  from Cons.prems have "list_all is_timer post" by simp
  from Cons.IH[OF this st(1)] st show ?case by simp
qed

lemma open_run_success:
  assumes "list_all is_upgrade pre" and "list_all is_timer post"
  shows "outer (open_run wr (pre @ OnSuccess c # post)) = Fulfilled WrapperRef \<and>
     db (w (open_run wr (pre @ OnSuccess c # post))) = Some c \<and>
     native_opens (w (open_run wr (pre @ OnSuccess c # post))) = Suc (native_opens wr) \<and>
     closed (w (open_run wr (pre @ OnSuccess c # post))) = closed wr \<and>
     versionchange_bound (w (open_run wr (pre @ OnSuccess c # post))) =
       versionchange_bound wr @ [c]"
proof -
  let ?s0 = "open_init wr"
  let ?s1 = "foldl open_step ?s0 pre"
  let ?s2 = "open_step ?s1 (OnSuccess c)"
  have i: "inner ?s0 = Pending" "outer ?s0 = Pending" "\<not> openRequestTimedOut ?s0"
    by (simp_all add: open_init_def)
  note p = foldl_open_step_upgrades[OF assms(1) i]
  from p have t: "inner ?s2 = Fulfilled c" "outer ?s2 = Fulfilled WrapperRef"
    "db (w ?s2) = Some c" "native_opens (w ?s2) = Suc (native_opens wr)"
    "closed (w ?s2) = closed wr" "versionchange_bound (w ?s2) = versionchange_bound wr @ [c]"
    by (simp_all add: open_step_def open_resume_def open_init_def)
  note q = foldl_open_step_timers[OF assms(2) t(1)]
  have run: "open_run wr (pre @ OnSuccess c # post) = foldl open_step ?s2 post"
    by (simp add: open_run_def)
  show ?thesis using q t by (simp add: run)
qed

lemma close_fields:
  "db (close wr) = None" "native_opens (close wr) = native_opens wr"
  "versionchange_bound (close wr) = versionchange_bound wr"
  by (simp_all add: close_def split: option.splits)

text \<open>A transaction leaves the connection as its \<^verbatim>\<open>open()\<close> left it.\<close>

lemma transaction_connection:
  "db (fst (transaction wr oevs storeNames type tr cb evs)) = db (fst (open wr oevs)) \<and>
   native_opens (fst (transaction wr oevs storeNames type tr cb evs)) =
     native_opens (fst (open wr oevs)) \<and>
   closed (fst (transaction wr oevs storeNames type tr cb evs)) = closed (fst (open wr oevs))"
  by (cases "open wr oevs") (auto simp: transaction_def split: promise.splits option.splits)

text \<open>
  C10. After \<^verbatim>\<open>close()\<close> the connection field is empty. A following \<^verbatim>\<open>open()\<close>
  whose request succeeds with handle \<open>c\<close> before the timer runs (upgrades may come
  before the success, the timer after it) is fulfilled, has issued one more native open,
  holds \<open>c\<close> and has closed no handle; the same holds when the open is made by
  \<^verbatim>\<open>transaction()\<close>, through which every wrapped operation goes. A second
  \<^verbatim>\<open>close()\<close> changes nothing.
\<close>

theorem reopen_after_close:
  assumes "list_all is_upgrade pre" and "list_all is_timer post"
  shows "db (close wr) = None \<and>
     snd (open (close wr) (pre @ OnSuccess c # post)) = Fulfilled WrapperRef \<and>
     db (fst (open (close wr) (pre @ OnSuccess c # post))) = Some c \<and>
     native_opens (fst (open (close wr) (pre @ OnSuccess c # post))) =
       Suc (native_opens wr) \<and>
     closed (fst (open (close wr) (pre @ OnSuccess c # post))) = closed (close wr) \<and>
     db (fst (transaction (close wr) (pre @ OnSuccess c # post) storeNames type tr cb evs)) =
       Some c \<and>
     native_opens (fst (transaction (close wr) (pre @ OnSuccess c # post) storeNames type tr
       cb evs)) = Suc (native_opens wr) \<and>
     close (close wr) = close wr"
  using open_run_success[OF assms, of "close wr" c]
  by (simp add: transaction_connection open_def close_fields)
    (simp add: close_def split: option.splits)

theorem reopen_after_close_witness:
  "list_all is_upgrade [OnUpgradeNeeded 8] \<and> list_all is_timer [TimerFires] \<and>
   db (fst (open (new_wrapper True) [OnSuccess 7])) = Some 7 \<and>
   db (close (fst (open (new_wrapper True) [OnSuccess 7]))) = None \<and>
   open (close (fst (open (new_wrapper True) [OnSuccess 7])))
     ([OnUpgradeNeeded 8] @ OnSuccess 8 # [TimerFires]) =
     (\<lparr>db = Some 8, has_onupgradeneeded = True, native_opens = 2, closed = [7],
       upgrade_aborts = [], upgrade_callbacks = [8], versionchange_bound = [7, 8],
       txns = []\<rparr>, Fulfilled WrapperRef)"
  using reopen_after_close[of "[OnUpgradeNeeded 8]" "[TimerFires]"
      "fst (open (new_wrapper True) [OnSuccess 7])" 8]
  by (simp add: open_def open_run_def open_init_def open_step_def open_resume_def close_def
      new_wrapper_def)

section \<open>Properties of transaction\<close>

text \<open>A promise that is no longer pending ignores every call of \<^verbatim>\<open>resolve\<close> and
  \<^verbatim>\<open>reject\<close>; a settled one ignores every event.\<close>

lemma resolve_nonpending: "p \<noteq> Pending \<Longrightarrow> resolve p v = p"
  by (cases p) simp_all

lemma reject_nonpending: "p \<noteq> Pending \<Longrightarrow> reject p e = p"
  by (cases p) simp_all

lemma resolve_value_nonpending: "p \<noteq> Pending \<Longrightarrow> resolve_value p v = p"
  by (cases p; cases v) simp_all

lemma resolve_value_plain: "\<not> is_thenable v \<Longrightarrow> resolve_value p v = resolve p v"
  by (cases p; cases v) simp_all

lemma resolve_value_not_pending: "resolve_value p v \<noteq> Pending"
  by (cases p; cases v) simp_all

lemma settled_nonpending: "settled p \<Longrightarrow> p \<noteq> Pending"
  by (cases p) simp_all

lemma txn_handler_settled: "settled p \<Longrightarrow> txn_handler p ev = p"
  by (cases p; cases ev) (simp_all add: resolve_value_nonpending)

lemma foldl_txn_handler_settled: "settled p \<Longrightarrow> foldl txn_handler p evs = p"
  by (induction evs) (simp_all add: txn_handler_settled)

lemma txn_handler_nonpending: "p \<noteq> Pending \<Longrightarrow> txn_handler p ev \<noteq> Pending"
  by (cases p; cases ev) (simp_all add: resolve_value_not_pending)

lemma foldl_txn_handler_nonpending: "p \<noteq> Pending \<Longrightarrow> foldl txn_handler p evs \<noteq> Pending"
  by (induction evs arbitrary: p) (simp_all add: txn_handler_nonpending)

lemma txn_handler_done_nonpending: "txn_handler p (CallbackDone v) \<noteq> Pending"
  by (simp add: resolve_value_not_pending)

lemma txn_handler_terminal_noop:
  "p \<noteq> Pending \<Longrightarrow> txn_handler p OnComplete = p \<and> txn_handler p (OnAbort e) = p"
  by (simp add: resolve_nonpending reject_nonpending)

lemma foldl_resolve_value_nonpending: "p \<noteq> Pending \<Longrightarrow> foldl resolve_value p vs = p"
  by (induction vs) (simp_all add: resolve_value_nonpending)

lemma executor_done_first: "sync_dones cb = v # vs \<Longrightarrow> executor cb = resolve_value Pending v"
  by (simp add: executor_def Let_def foldl_resolve_value_nonpending resolve_value_not_pending
      reject_nonpending split: option.splits)

lemma executor_no_done:
  "sync_dones cb = [] \<Longrightarrow>
   executor cb = (case raised cb of None \<Rightarrow> Pending | Some e \<Rightarrow> Rejected e)"
  by (simp add: executor_def split: option.splits)


lemma foldl_txn_handler_terminal:
  assumes "ev \<in> set evs" and "ev = OnComplete \<or> ev = OnAbort e"
  shows "foldl txn_handler p evs \<noteq> Pending"
  using assms(1)
proof (induction evs arbitrary: p)
  case Nil
  then show ?case by simp
next
  case (Cons x xs)
  show ?case
  proof (cases "x = ev")
    case True
    with assms(2) have "txn_handler p x \<noteq> Pending"
      by (cases p) auto
    then show ?thesis by (simp add: foldl_txn_handler_nonpending)
  next
    case False
    with Cons.prems have "ev \<in> set xs" by simp
    from Cons.IH[OF this] show ?thesis by simp
  qed
qed

lemma nonpending_cases: "p \<noteq> Pending \<Longrightarrow> settled p \<or> (\<exists>i. p = Following i)"
  by (cases p) simp_all

lemma transaction_promise:
  "snd (open wr oevs) = Fulfilled u \<Longrightarrow>
   snd (transaction wr oevs storeNames type None cb evs) = foldl txn_handler (executor cb) evs"
  by (cases "open wr oevs") (simp add: transaction_def)

lemma transaction_not_opened:
  "snd (open wr oevs) = Rejected e \<Longrightarrow>
   snd (transaction wr oevs storeNames type tr cb evs) = Rejected e"
  "snd (open wr oevs) = Fulfilled u \<Longrightarrow>
   snd (transaction wr oevs storeNames type (Some e) cb evs) = Rejected e"
  by (cases "open wr oevs"; simp add: transaction_def)+

lemma transaction_settled_stable:
  "settled (snd (transaction wr oevs storeNames type tr cb evs)) \<Longrightarrow>
   snd (transaction wr oevs storeNames type tr cb (evs @ later)) =
   snd (transaction wr oevs storeNames type tr cb evs)"
  by (cases "open wr oevs")
    (auto simp: transaction_def foldl_txn_handler_settled split: promise.splits option.splits)

text \<open>An event that only calls \<^verbatim>\<open>resolve()\<close> or \<^verbatim>\<open>reject\<close> can be left out of the
  events once \<^verbatim>\<open>done\<close> has been called.\<close>

lemma transaction_drop_after_done:
  assumes "ev = OnComplete \<or> ev = OnAbort e"
  shows "snd (transaction wr oevs storeNames type tr cb (pre @ CallbackDone v # mid @ ev # post)) =
     snd (transaction wr oevs storeNames type tr cb (pre @ CallbackDone v # mid @ post))"
proof -
  have "foldl txn_handler p (pre @ CallbackDone v # mid @ ev # post) =
      foldl txn_handler p (pre @ CallbackDone v # mid @ post)" for p
  proof -
    let ?q = "foldl txn_handler (txn_handler (foldl txn_handler p pre) (CallbackDone v)) mid"
    have "?q \<noteq> Pending"
      by (rule foldl_txn_handler_nonpending) (rule txn_handler_done_nonpending)
    then have "txn_handler ?q ev = ?q"
      using assms txn_handler_terminal_noop[of ?q e] by auto
    then show ?thesis by (simp del: txn_handler.simps)
  qed
  then show ?thesis
    by (cases "open wr oevs")
      (auto simp: transaction_def simp del: foldl_append txn_handler.simps
        split: promise.splits option.splits)
qed

lemma transaction_drop_after_sync_done:
  assumes "ev = OnComplete \<or> ev = OnAbort e" and "sync_dones cb \<noteq> []"
  shows "snd (transaction wr oevs storeNames type tr cb (mid @ ev # post)) =
     snd (transaction wr oevs storeNames type tr cb (mid @ post))"
proof -
  from assms(2) obtain v vs where "sync_dones cb = v # vs" by (cases "sync_dones cb") auto
  then have "executor cb \<noteq> Pending"
    by (simp add: executor_done_first resolve_value_not_pending)
  then have q: "foldl txn_handler (executor cb) mid \<noteq> Pending"
    by (rule foldl_txn_handler_nonpending)
  then have "txn_handler (foldl txn_handler (executor cb) mid) ev =
      foldl txn_handler (executor cb) mid"
    using assms(1) txn_handler_terminal_noop[OF q, of e] by auto
  then have "foldl txn_handler (executor cb) (mid @ ev # post) =
      foldl txn_handler (executor cb) (mid @ post)"
    by (simp del: txn_handler.simps)
  then show ?thesis
    by (cases "open wr oevs")
      (auto simp: transaction_def simp del: foldl_append txn_handler.simps
        split: promise.splits option.splits)
qed




text \<open>
  C5, as amended. For every call of \<^verbatim>\<open>transaction()\<close>: once the promise is settled,
  later events do not change it. It is rejected with the error of \<^verbatim>\<open>open()\<close> or of
  \<^verbatim>\<open>this._db.transaction\<close> when one of them fails. When the callback runs and passes
  \<open>v\<close>, not a thenable, to \<^verbatim>\<open>done\<close> before anything else resolves the promise (while
  it runs, or first among the later events after it returned without raising), the
  promise is fulfilled with \<open>v\<close>; when it returned without raising and without calling
  \<^verbatim>\<open>done\<close>, and the transaction completes first, the promise is fulfilled with
  \<^verbatim>\<open>undefined\<close>. A completion that comes after a call of \<^verbatim>\<open>done\<close> changes
  nothing: the promise is what it is without that completion. And once the transaction
  has completed or aborted, the promise is settled, unless it follows a thenable that was
  passed to \<^verbatim>\<open>done\<close>.
\<close>

theorem transaction_settles_once:
  "(settled (snd (transaction wr oevs storeNames type tr cb evs)) \<longrightarrow>
      snd (transaction wr oevs storeNames type tr cb (evs @ later)) =
      snd (transaction wr oevs storeNames type tr cb evs)) \<and>
   (snd (open wr oevs) = Rejected e \<longrightarrow>
      snd (transaction wr oevs storeNames type tr cb evs) = Rejected e) \<and>
   (snd (open wr oevs) = Fulfilled u \<and> tr = Some e \<longrightarrow>
      snd (transaction wr oevs storeNames type tr cb evs) = Rejected e) \<and>
   (snd (open wr oevs) = Fulfilled u \<and> tr = None \<and> sync_dones cb = v # vs \<and>
    \<not> is_thenable v \<longrightarrow>
      snd (transaction wr oevs storeNames type tr cb evs) = Fulfilled v) \<and>
   (snd (open wr oevs) = Fulfilled u \<and> tr = None \<and> sync_dones cb = [] \<and>
    raised cb = None \<longrightarrow>
      snd (transaction wr oevs storeNames type tr cb []) = Pending \<and>
      (\<not> is_thenable v \<longrightarrow>
         snd (transaction wr oevs storeNames type tr cb (CallbackDone v # evs)) = Fulfilled v) \<and>
      snd (transaction wr oevs storeNames type tr cb (OnComplete # evs)) =
        Fulfilled Undefined) \<and>
   snd (transaction wr oevs storeNames type tr cb (pre @ CallbackDone v # mid @ OnComplete # post)) =
     snd (transaction wr oevs storeNames type tr cb (pre @ CallbackDone v # mid @ post)) \<and>
   (sync_dones cb \<noteq> [] \<longrightarrow>
      snd (transaction wr oevs storeNames type tr cb (mid @ OnComplete # post)) =
      snd (transaction wr oevs storeNames type tr cb (mid @ post))) \<and>
   (snd (open wr oevs) = Fulfilled u \<and> (OnComplete \<in> set evs \<or> OnAbort e \<in> set evs) \<longrightarrow>
      settled (snd (transaction wr oevs storeNames type tr cb evs)) \<or>
      (\<exists>i. snd (transaction wr oevs storeNames type tr cb evs) = Following i))"
proof -
  have k: "snd (open wr oevs) = Fulfilled u \<and> (OnComplete \<in> set evs \<or> OnAbort e \<in> set evs) \<longrightarrow>
      settled (snd (transaction wr oevs storeNames type tr cb evs)) \<or>
      (\<exists>i. snd (transaction wr oevs storeNames type tr cb evs) = Following i)"
  proof
    assume h: "snd (open wr oevs) = Fulfilled u \<and> (OnComplete \<in> set evs \<or> OnAbort e \<in> set evs)"
    show "settled (snd (transaction wr oevs storeNames type tr cb evs)) \<or>
      (\<exists>i. snd (transaction wr oevs storeNames type tr cb evs) = Following i)"
    proof (cases tr)
      case (Some x)
      with h show ?thesis by (simp add: transaction_not_opened)
    next
      case None
      from h have "foldl txn_handler (executor cb) evs \<noteq> Pending"
        using foldl_txn_handler_terminal[of OnComplete evs e]
          foldl_txn_handler_terminal[of "OnAbort e" evs e] by auto
      then have "settled (foldl txn_handler (executor cb) evs) \<or>
          (\<exists>i. foldl txn_handler (executor cb) evs = Following i)"
        by (rule nonpending_cases)
      with h None show ?thesis by (simp add: transaction_promise)
    qed
  qed
  have a: "settled (snd (transaction wr oevs storeNames type tr cb evs)) \<longrightarrow>
      snd (transaction wr oevs storeNames type tr cb (evs @ later)) =
      snd (transaction wr oevs storeNames type tr cb evs)"
    by (simp add: transaction_settled_stable)
  have b: "snd (open wr oevs) = Rejected e \<longrightarrow>
      snd (transaction wr oevs storeNames type tr cb evs) = Rejected e"
    by (simp add: transaction_not_opened)
  have c: "snd (open wr oevs) = Fulfilled u \<and> tr = Some e \<longrightarrow>
      snd (transaction wr oevs storeNames type tr cb evs) = Rejected e"
    by (auto simp: transaction_not_opened)
  have d: "snd (open wr oevs) = Fulfilled u \<and> tr = None \<and> sync_dones cb = v # vs \<and>
    \<not> is_thenable v \<longrightarrow>
      snd (transaction wr oevs storeNames type tr cb evs) = Fulfilled v"
    by (auto simp: transaction_promise executor_done_first resolve_value_plain
        foldl_txn_handler_settled)
  have f: "snd (open wr oevs) = Fulfilled u \<and> tr = None \<and> sync_dones cb = [] \<and>
    raised cb = None \<longrightarrow>
      snd (transaction wr oevs storeNames type tr cb []) = Pending \<and>
      (\<not> is_thenable v \<longrightarrow>
         snd (transaction wr oevs storeNames type tr cb (CallbackDone v # evs)) = Fulfilled v) \<and>
      snd (transaction wr oevs storeNames type tr cb (OnComplete # evs)) =
        Fulfilled Undefined"
    by (auto simp: transaction_promise executor_no_done resolve_value_plain
        foldl_txn_handler_settled)
  have g: "snd (transaction wr oevs storeNames type tr cb
        (pre @ CallbackDone v # mid @ OnComplete # post)) =
     snd (transaction wr oevs storeNames type tr cb (pre @ CallbackDone v # mid @ post))"
    by (rule transaction_drop_after_done) simp
  have h: "sync_dones cb \<noteq> [] \<longrightarrow>
      snd (transaction wr oevs storeNames type tr cb (mid @ OnComplete # post)) =
      snd (transaction wr oevs storeNames type tr cb (mid @ post))"
    using transaction_drop_after_sync_done[of OnComplete _ cb] by simp
  from a b c d f g h k show ?thesis by blast
qed

theorem transaction_settles_once_witness:
  "snd (open (new_wrapper False) [OnSuccess 1]) = Fulfilled WrapperRef \<and>
   snd (open (new_wrapper False) [TimerFires]) = Rejected OpenTimedOut \<and>
   snd (transaction (new_wrapper False) [TimerFires] [''s''] ReadWrite None
          \<lparr>sync_dones = [], raised = None, invoked = []\<rparr> [OnComplete]) =
     Rejected OpenTimedOut \<and>
   snd (transaction (new_wrapper False) [OnSuccess 1] [''s''] ReadWrite (Some (Native 4))
          \<lparr>sync_dones = [], raised = None, invoked = []\<rparr> [OnComplete]) =
     Rejected (Native 4) \<and>
   snd (transaction (new_wrapper False) [OnSuccess 1] [''s''] ReadWrite None
          \<lparr>sync_dones = [], raised = None, invoked = []\<rparr> []) = Pending \<and>
   \<not> is_thenable (Data 5) \<and>
   snd (transaction (new_wrapper False) [OnSuccess 1] [''s''] ReadWrite None
          \<lparr>sync_dones = [], raised = None, invoked = []\<rparr>
          (CallbackDone (Data 5) # [OnComplete])) = Fulfilled (Data 5) \<and>
   snd (transaction (new_wrapper False) [OnSuccess 1] [''s''] ReadWrite None
          \<lparr>sync_dones = [], raised = None, invoked = []\<rparr>
          (OnComplete # [OnComplete])) = Fulfilled Undefined \<and>
   settled (snd (transaction (new_wrapper False) [OnSuccess 1] [''s''] ReadWrite None
          \<lparr>sync_dones = [], raised = None, invoked = []\<rparr> [OnComplete])) \<and>
   snd (transaction (new_wrapper False) [OnSuccess 1] [''s''] ReadWrite None
          \<lparr>sync_dones = [], raised = None, invoked = []\<rparr>
          ([OnComplete] @ [OnAbort (Native 3)])) =
   snd (transaction (new_wrapper False) [OnSuccess 1] [''s''] ReadWrite None
          \<lparr>sync_dones = [], raised = None, invoked = []\<rparr> [OnComplete]) \<and>
   sync_dones \<lparr>sync_dones = [Data 5], raised = None, invoked = []\<rparr> = Data 5 # [] \<and>
   snd (transaction (new_wrapper False) [OnSuccess 1] [''s''] ReadWrite None
          \<lparr>sync_dones = [Data 5], raised = None, invoked = []\<rparr> [OnComplete]) =
     Fulfilled (Data 5)"
  using transaction_settles_once[where wr = "new_wrapper False" and oevs = "[OnSuccess 1]"
      and u = WrapperRef and storeNames = "[''s'']" and type = ReadWrite and tr = None
      and cb = "\<lparr>sync_dones = [], raised = None, invoked = []\<rparr>" and evs = "[OnComplete]"
      and later = "[OnAbort (Native 3)]" and v = "Data 5"]
    transaction_settles_once[where wr = "new_wrapper False" and oevs = "[OnSuccess 1]"
      and u = WrapperRef and storeNames = "[''s'']" and type = ReadWrite and tr = None
      and cb = "\<lparr>sync_dones = [Data 5], raised = None, invoked = []\<rparr>"
      and evs = "[OnComplete]" and v = "Data 5" and vs = "[]"]
    transaction_settles_once[where wr = "new_wrapper False" and oevs = "[TimerFires]"
      and e = OpenTimedOut and storeNames = "[''s'']" and type = ReadWrite and tr = None
      and cb = "\<lparr>sync_dones = [], raised = None, invoked = []\<rparr>" and evs = "[OnComplete]"]
    transaction_settles_once[where wr = "new_wrapper False" and oevs = "[OnSuccess 1]"
      and u = WrapperRef and e = "Native 4" and storeNames = "[''s'']" and type = ReadWrite
      and tr = "Some (Native 4)"
      and cb = "\<lparr>sync_dones = [], raised = None, invoked = []\<rparr>" and evs = "[OnComplete]"]
  by (simp add: transaction_def executor_def open_def open_run_def open_init_def open_step_def
      open_resume_def new_wrapper_def)

text \<open>
  C5 as stated fails in two ways. The callback raises at once without calling
  \<^verbatim>\<open>done\<close> and the transaction then completes: the promise is rejected with the
  exception, not fulfilled with \<^verbatim>\<open>undefined\<close>. The callback passes a promise of its
  own to \<^verbatim>\<open>done\<close>: the promise of \<^verbatim>\<open>transaction()\<close> then follows it, is not
  fulfilled with it, is still unsettled after the transaction has completed, and is
  rejected if that promise is.
\<close>

theorem transaction_settles_once_counterexample:
  "snd (open (new_wrapper False) [OnSuccess 1]) = Fulfilled WrapperRef \<and>
   snd (transaction (new_wrapper False) [OnSuccess 1] [''s''] ReadWrite None
          \<lparr>sync_dones = [], raised = Some (Thrown 0), invoked = []\<rparr> [OnComplete]) =
     Rejected (Thrown 0) \<and>
   snd (transaction (new_wrapper False) [OnSuccess 1] [''s''] ReadWrite None
          \<lparr>sync_dones = [], raised = Some (Thrown 0), invoked = []\<rparr> [OnComplete]) \<noteq>
     Fulfilled Undefined \<and>
   snd (transaction (new_wrapper False) [OnSuccess 1] [''s''] ReadWrite None
          \<lparr>sync_dones = [], raised = None, invoked = []\<rparr>
          [CallbackDone (Thenable 0), OnComplete]) = Following 0 \<and>
   \<not> settled (snd (transaction (new_wrapper False) [OnSuccess 1] [''s''] ReadWrite None
          \<lparr>sync_dones = [], raised = None, invoked = []\<rparr>
          [CallbackDone (Thenable 0), OnComplete])) \<and>
   snd (transaction (new_wrapper False) [OnSuccess 1] [''s''] ReadWrite None
          \<lparr>sync_dones = [], raised = None, invoked = []\<rparr>
          [CallbackDone (Thenable 0), ThenableRejects 0 (Thrown 1), OnComplete]) =
     Rejected (Thrown 1)"
  by (simp add: transaction_def executor_def open_def open_run_def open_init_def open_step_def
      open_resume_def new_wrapper_def)

text \<open>
  C9, as amended. The callback calls \<^verbatim>\<open>done(v)\<close> and the transaction aborts later.
  The abort changes nothing: the promise is what it is without the abort. And when the
  promise was pending at the call of \<^verbatim>\<open>done(v)\<close> (or \<^verbatim>\<open>done(v)\<close> was the first
  thing the callback did while it ran) and \<open>v\<close> is not a thenable, it is fulfilled with
  \<open>v\<close>.
\<close>

theorem transaction_done_then_abort:
  "snd (transaction wr oevs storeNames type tr cb (pre @ CallbackDone v # mid @ OnAbort e # post)) =
     snd (transaction wr oevs storeNames type tr cb (pre @ CallbackDone v # mid @ post)) \<and>
   (sync_dones cb \<noteq> [] \<longrightarrow>
      snd (transaction wr oevs storeNames type tr cb (mid @ OnAbort e # post)) =
      snd (transaction wr oevs storeNames type tr cb (mid @ post))) \<and>
   (snd (open wr oevs) = Fulfilled u \<and> tr = None \<and>
    snd (transaction wr oevs storeNames type tr cb pre) = Pending \<and> \<not> is_thenable v \<longrightarrow>
      snd (transaction wr oevs storeNames type tr cb
            (pre @ CallbackDone v # mid @ OnAbort e # post)) = Fulfilled v) \<and>
   (snd (open wr oevs) = Fulfilled u \<and> tr = None \<and> sync_dones cb = v # vs \<and>
    \<not> is_thenable v \<longrightarrow>
      snd (transaction wr oevs storeNames type tr cb (mid @ OnAbort e # post)) = Fulfilled v)"
proof -
  have a: "snd (transaction wr oevs storeNames type tr cb
        (pre @ CallbackDone v # mid @ OnAbort e # post)) =
     snd (transaction wr oevs storeNames type tr cb (pre @ CallbackDone v # mid @ post))"
    by (rule transaction_drop_after_done) simp
  have b: "sync_dones cb \<noteq> [] \<longrightarrow>
      snd (transaction wr oevs storeNames type tr cb (mid @ OnAbort e # post)) =
      snd (transaction wr oevs storeNames type tr cb (mid @ post))"
    using transaction_drop_after_sync_done[of "OnAbort e" e cb] by simp
  have c: "snd (open wr oevs) = Fulfilled u \<and> tr = None \<and>
    snd (transaction wr oevs storeNames type tr cb pre) = Pending \<and> \<not> is_thenable v \<longrightarrow>
      snd (transaction wr oevs storeNames type tr cb
            (pre @ CallbackDone v # mid @ OnAbort e # post)) = Fulfilled v"
    by (auto simp: transaction_promise resolve_value_plain foldl_txn_handler_settled)
  have d: "snd (open wr oevs) = Fulfilled u \<and> tr = None \<and> sync_dones cb = v # vs \<and>
    \<not> is_thenable v \<longrightarrow>
      snd (transaction wr oevs storeNames type tr cb (mid @ OnAbort e # post)) = Fulfilled v"
    by (auto simp: transaction_promise executor_done_first resolve_value_plain
        foldl_txn_handler_settled)
  from a b c d show ?thesis by blast
qed

theorem transaction_done_then_abort_witness:
  "snd (open (new_wrapper False) [OnSuccess 1]) = Fulfilled WrapperRef \<and>
   snd (transaction (new_wrapper False) [OnSuccess 1] [''s''] ReadWrite None
          \<lparr>sync_dones = [], raised = None, invoked = []\<rparr> []) = Pending \<and>
   \<not> is_thenable (Data 5) \<and>
   snd (transaction (new_wrapper False) [OnSuccess 1] [''s''] ReadWrite None
          \<lparr>sync_dones = [], raised = None, invoked = []\<rparr>
          ([] @ CallbackDone (Data 5) # [] @ OnAbort (Native 3) # [])) = Fulfilled (Data 5) \<and>
   sync_dones \<lparr>sync_dones = [Data 5], raised = None, invoked = []\<rparr> = Data 5 # [] \<and>
   snd (transaction (new_wrapper False) [OnSuccess 1] [''s''] ReadWrite None
          \<lparr>sync_dones = [Data 5], raised = None, invoked = []\<rparr>
          ([] @ OnAbort (Native 3) # [])) = Fulfilled (Data 5) \<and>
   snd (transaction (new_wrapper False) [OnSuccess 1] [''s''] ReadWrite None
          \<lparr>sync_dones = [], raised = None, invoked = []\<rparr>
          ([] @ CallbackDone (Thenable 0) # [] @ OnAbort (Native 3) # [ThenableFulfils 0 (Data 6)])) =
   snd (transaction (new_wrapper False) [OnSuccess 1] [''s''] ReadWrite None
          \<lparr>sync_dones = [], raised = None, invoked = []\<rparr>
          ([] @ CallbackDone (Thenable 0) # [] @ [ThenableFulfils 0 (Data 6)]))"
  using transaction_done_then_abort[where wr = "new_wrapper False" and oevs = "[OnSuccess 1]"
      and u = WrapperRef and storeNames = "[''s'']" and type = ReadWrite and tr = None
      and cb = "\<lparr>sync_dones = [], raised = None, invoked = []\<rparr>" and pre = "[]"
      and v = "Data 5" and mid = "[]" and e = "Native 3" and post = "[]"]
    transaction_done_then_abort[where wr = "new_wrapper False" and oevs = "[OnSuccess 1]"
      and u = WrapperRef and storeNames = "[''s'']" and type = ReadWrite and tr = None
      and cb = "\<lparr>sync_dones = [Data 5], raised = None, invoked = []\<rparr>" and pre = "[]"
      and v = "Data 5" and mid = "[]" and e = "Native 3" and post = "[]" and vs = "[]"]
    transaction_done_then_abort[where wr = "new_wrapper False" and oevs = "[OnSuccess 1]"
      and storeNames = "[''s'']" and type = ReadWrite and tr = None
      and cb = "\<lparr>sync_dones = [], raised = None, invoked = []\<rparr>" and pre = "[]"
      and v = "Thenable 0" and mid = "[]" and e = "Native 3"
      and post = "[ThenableFulfils 0 (Data 6)]"]
  by (simp add: transaction_def executor_def open_def open_run_def open_init_def open_step_def
      open_resume_def new_wrapper_def)

text \<open>
  C9 as stated fails: after \<^verbatim>\<open>done(1)\<close>, \<^verbatim>\<open>done(2)\<close> and an abort the promise is
  fulfilled with 1, not with 2; when the callback raised before a handler of its own
  calls \<^verbatim>\<open>done(5)\<close>, the promise is rejected with the exception; and when the
  callback passes a promise of its own to \<^verbatim>\<open>done\<close>, the promise follows it and is
  rejected if that promise is.
\<close>

theorem transaction_done_then_abort_counterexample:
  "snd (open (new_wrapper False) [OnSuccess 1]) = Fulfilled WrapperRef \<and>
   snd (transaction (new_wrapper False) [OnSuccess 1] [''s''] ReadWrite None
          \<lparr>sync_dones = [], raised = None, invoked = []\<rparr>
          [CallbackDone (Data 1), CallbackDone (Data 2), OnAbort (Native 3)]) =
     Fulfilled (Data 1) \<and>
   snd (transaction (new_wrapper False) [OnSuccess 1] [''s''] ReadWrite None
          \<lparr>sync_dones = [], raised = None, invoked = []\<rparr>
          [CallbackDone (Data 1), CallbackDone (Data 2), OnAbort (Native 3)]) \<noteq>
     Fulfilled (Data 2) \<and>
   snd (transaction (new_wrapper False) [OnSuccess 1] [''s''] ReadWrite None
          \<lparr>sync_dones = [], raised = Some (Thrown 0), invoked = []\<rparr>
          [CallbackDone (Data 5), OnAbort (Native 3)]) = Rejected (Thrown 0) \<and>
   snd (transaction (new_wrapper False) [OnSuccess 1] [''s''] ReadWrite None
          \<lparr>sync_dones = [], raised = None, invoked = []\<rparr>
          [CallbackDone (Thenable 0), OnAbort (Native 3)]) = Following 0 \<and>
   snd (transaction (new_wrapper False) [OnSuccess 1] [''s''] ReadWrite None
          \<lparr>sync_dones = [], raised = None, invoked = []\<rparr>
          [CallbackDone (Thenable 0), OnAbort (Native 3), ThenableRejects 0 (Thrown 1)]) =
     Rejected (Thrown 1)"
  by (simp add: transaction_def executor_def open_def open_run_def open_init_def open_step_def
      open_resume_def new_wrapper_def)

section \<open>Properties of getAllMatching\<close>

lemma scan_run_append:
  "scan_run cnt ik s (evs @ later) =
     (fst (scan_run cnt ik (fst (scan_run cnt ik s evs)) later),
      snd (scan_run cnt ik s evs) @ snd (scan_run cnt ik (fst (scan_run cnt ik s evs)) later))"
  by (induction evs arbitrary: s) (simp_all add: case_prod_beta)

lemma scan_init_inv: "0 < n \<Longrightarrow> scan_inv n (scan_init cursor)"
  by (simp add: scan_inv_def scan_init_def split: sum.splits)

lemma scan_step_inv:
  assumes "0 < N" and "scan_inv (nat N) s"
  shows "scan_inv (nat N) (fst (scan_step (Some N) ik s ev))"
proof (cases ev)
  case ReqSuccess
  show ?thesis
    using assms
    by (auto simp: ReqSuccess scan_inv_def count_reached_def Let_def split: list.splits)
next
  case TxnComplete
  then show ?thesis using assms by (simp add: scan_inv_def)
next
  case (TxnAbort e)
  then show ?thesis using assms by (simp add: scan_inv_def)
qed

lemma scan_run_inv:
  "0 < N \<Longrightarrow> scan_inv (nat N) s \<Longrightarrow> scan_inv (nat N) (fst (scan_run (Some N) ik s evs))"
proof (induction evs arbitrary: s)
  case Nil
  then show ?case by simp
next
  case (Cons ev evs)
  from Cons.prems have "scan_inv (nat N) (fst (scan_step (Some N) ik s ev))"
    by (rule scan_step_inv)
  from Cons.IH[OF Cons.prems(1) this] show ?case
    by (simp add: case_prod_beta)
qed

lemma scan_step_done:
  "CallbackDone v \<in> set (snd (scan_step cnt ik s ev)) \<Longrightarrow>
   v = Arr (results (fst (scan_step cnt ik s ev)))"
  by (cases ev) (auto simp: Let_def split: list.splits if_splits)

lemma scan_run_done:
  "0 < N \<Longrightarrow> scan_inv (nat N) s \<Longrightarrow>
   CallbackDone v \<in> set (snd (scan_run (Some N) ik s evs)) \<Longrightarrow>
   \<exists>xs. v = Arr xs \<and> length xs \<le> nat N"
proof (induction evs arbitrary: s)
  case Nil
  then show ?case by simp
next
  case (Cons ev evs)
  let ?s = "fst (scan_step (Some N) ik s ev)"
  have inv: "scan_inv (nat N) ?s"
    using Cons.prems(1,2) by (rule scan_step_inv)
  from Cons.prems(3) consider
      "CallbackDone v \<in> set (snd (scan_step (Some N) ik s ev))"
    | "CallbackDone v \<in> set (snd (scan_run (Some N) ik ?s evs))"
    by (auto simp: case_prod_beta)
  then show ?case
  proof cases
    case 1
    then have "v = Arr (results ?s)" by (rule scan_step_done)
    with inv show ?thesis by (simp add: scan_inv_def)
  next
    case 2
    with Cons.IH[OF Cons.prems(1) inv] show ?thesis .
  qed
qed

lemma resolve_value_Fulfilled: "resolve_value Pending v = Fulfilled x \<Longrightarrow> x = v"
  by (cases v) simp_all

lemma foldl_txn_handler_Fulfilled:
  "foldl txn_handler p calls = Fulfilled x \<Longrightarrow>
   p = Fulfilled x \<or> CallbackDone x \<in> set calls \<or> x = Undefined \<or>
   (\<exists>i. ThenableFulfils i x \<in> set calls)"
proof (induction calls arbitrary: p)
  case Nil
  then show ?case by simp
next
  case (Cons c calls)
  from Cons.IH[OF Cons.prems[simplified]]
  show ?case
    by (cases c; cases p) (auto dest: resolve_value_Fulfilled split: if_splits)
qed

text \<open>A scan calls \<^verbatim>\<open>done\<close> and the handlers of the transaction, and nothing else.\<close>

lemma scan_step_calls:
  "c \<in> set (snd (scan_step cnt ik s ev)) \<Longrightarrow>
   (\<exists>v. c = CallbackDone v) \<or> c = OnComplete \<or> (\<exists>e. c = OnAbort e)"
  by (cases ev) (auto simp: Let_def split: list.splits if_splits)

lemma scan_run_calls:
  "c \<in> set (snd (scan_run cnt ik s evs)) \<Longrightarrow>
   (\<exists>v. c = CallbackDone v) \<or> c = OnComplete \<or> (\<exists>e. c = OnAbort e)"
proof (induction evs arbitrary: s)
  case Nil
  then show ?case by simp
next
  case (Cons ev evs)
  from Cons.prems consider "c \<in> set (snd (scan_step cnt ik s ev))"
    | "c \<in> set (snd (scan_run cnt ik (fst (scan_step cnt ik s ev)) evs))"
    by (auto simp: case_prod_beta)
  then show ?case
  proof cases
    case 1
    then show ?thesis by (rule scan_step_calls)
  next
    case 2
    then show ?thesis by (rule Cons.IH)
  qed
qed

lemma executor_scan_callback:
  "executor (scan_callback cursor) = (case cursor of Inl e \<Rightarrow> Rejected e | Inr es \<Rightarrow> Pending)"
  by (simp add: executor_def scan_callback_def split: sum.splits)

lemma transaction_Fulfilled:
  "snd (transaction wr oevs storeNames type tr cb calls) = Fulfilled x \<Longrightarrow>
   foldl txn_handler (executor cb) calls = Fulfilled x"
  by (cases "open wr oevs")
    (auto simp: transaction_def split: promise.splits option.splits)

lemma getAllMatching_promise:
  "fst (snd (getAllMatching wr oevs storeName cnt ik tr cursor evs)) =
   snd (transaction wr oevs [storeName] ReadOnly tr (scan_callback cursor)
          (snd (scan_run cnt ik (scan_init cursor) evs)))"
  by (simp add: getAllMatching_def case_prod_beta)

lemma scan_step_idle:
  "\<not> request_pending s \<Longrightarrow>
   \<not> request_pending (fst (scan_step cnt ik s ev)) \<and>
   results (fst (scan_step cnt ik s ev)) = results s \<and>
   advances (fst (scan_step cnt ik s ev)) = advances s"
  by (cases ev) simp_all

lemma scan_run_idle:
  "\<not> request_pending s \<Longrightarrow>
   results (fst (scan_run cnt ik s evs)) = results s \<and>
   advances (fst (scan_run cnt ik s evs)) = advances s"
proof (induction evs arbitrary: s)
  case Nil
  then show ?case by simp
next
  case (Cons ev evs)
  note st = scan_step_idle[OF Cons.prems, of cnt ik ev]
  from st have "\<not> request_pending (fst (scan_step cnt ik s ev))" by simp
  from Cons.IH[OF this] st show ?case by (simp add: case_prod_beta)
qed

text \<open>
  C6. A scan with a positive count \<open>N\<close>, over any records and after any events: the
  accumulator holds at most \<open>N\<close> entries and \<^verbatim>\<open>cursor.continue()\<close> has been called at
  most \<open>N\<close> times, in fact fewer than \<open>N\<close> times and no more often than there are
  entries; while a success of the cursor's request is outstanding the accumulator holds
  fewer than \<open>N\<close> entries; an array with which the promise of \<^verbatim>\<open>getAllMatching\<close> is
  fulfilled has at most \<open>N\<close> entries; once the accumulator holds \<open>N\<close> entries, no later
  event advances the cursor or adds an entry; and the success that brings the \<open>N\<close>-th
  entry pushes it and calls \<^verbatim>\<open>done\<close> with the accumulator, without calling
  \<^verbatim>\<open>cursor.continue()\<close>.
\<close>

theorem getAllMatching_count:
  assumes "0 < N"
  shows "length (results (fst (scan_run (Some N) ik (scan_init cursor) evs))) \<le> nat N \<and>
     advances (fst (scan_run (Some N) ik (scan_init cursor) evs)) \<le> nat N \<and>
     (fst (snd (getAllMatching wr oevs storeName (Some N) ik tr cursor evs)) =
        Fulfilled (Arr xs) \<longrightarrow> length xs \<le> nat N) \<and>
     (length (results (fst (scan_run (Some N) ik (scan_init cursor) evs))) = nat N \<longrightarrow>
        advances (fst (scan_run (Some N) ik (scan_init cursor) (evs @ later))) =
          advances (fst (scan_run (Some N) ik (scan_init cursor) evs)) \<and>
        results (fst (scan_run (Some N) ik (scan_init cursor) (evs @ later))) =
          results (fst (scan_run (Some N) ik (scan_init cursor) evs))) \<and>
     advances (fst (scan_run (Some N) ik (scan_init cursor) evs)) < nat N \<and>
     advances (fst (scan_run (Some N) ik (scan_init cursor) evs)) \<le>
       length (results (fst (scan_run (Some N) ik (scan_init cursor) evs))) \<and>
     (request_pending (fst (scan_run (Some N) ik (scan_init cursor) evs)) \<longrightarrow>
        length (results (fst (scan_run (Some N) ik (scan_init cursor) evs))) < nat N) \<and>
     (txn_active t \<and> request_pending t \<and> remaining t = r # rs \<and>
      Suc (length (results t)) = nat N \<longrightarrow>
        scan_step (Some N) ik t ReqSuccess =
          (t\<lparr>request_pending := False, cursor_at := Some r, remaining := rs,
             results := results t @ [item ik r]\<rparr>,
           [CallbackDone (Arr (results t @ [item ik r]))]))"
proof -
  let ?s = "fst (scan_run (Some N) ik (scan_init cursor) evs)"
  from assms have n: "0 < nat N" by simp
  have inv0: "scan_inv (nat N) (scan_init cursor)"
    using n by (rule scan_init_inv)
  have inv: "scan_inv (nat N) ?s"
    using assms inv0 by (rule scan_run_inv)
  have a: "length (results ?s) \<le> nat N" "advances ?s \<le> nat N" "advances ?s < nat N"
    "advances ?s \<le> length (results ?s)"
    "request_pending ?s \<longrightarrow> length (results ?s) < nat N"
    using inv by (simp_all add: scan_inv_def)
  have b: "length xs \<le> nat N"
    if "fst (snd (getAllMatching wr oevs storeName (Some N) ik tr cursor evs)) =
        Fulfilled (Arr xs)"
  proof -
    let ?calls = "snd (scan_run (Some N) ik (scan_init cursor) evs)"
    from that have "foldl txn_handler (executor (scan_callback cursor)) ?calls = Fulfilled (Arr xs)"
      by (simp only: getAllMatching_promise transaction_Fulfilled)
    then have "executor (scan_callback cursor) = Fulfilled (Arr xs) \<or>
        CallbackDone (Arr xs) \<in> set ?calls \<or> Arr xs = Undefined \<or>
        (\<exists>i. ThenableFulfils i (Arr xs) \<in> set ?calls)"
      by (rule foldl_txn_handler_Fulfilled)
    moreover have "ThenableFulfils i (Arr xs) \<notin> set ?calls" for i
      using scan_run_calls[of "ThenableFulfils i (Arr xs)" "Some N" ik "scan_init cursor" evs]
      by auto
    ultimately have "CallbackDone (Arr xs) \<in> set ?calls"
      by (auto simp: executor_scan_callback split: sum.splits)
    from scan_run_done[OF assms inv0 this] show ?thesis by simp
  qed
  have c: "advances (fst (scan_run (Some N) ik (scan_init cursor) (evs @ later))) = advances ?s \<and>
        results (fst (scan_run (Some N) ik (scan_init cursor) (evs @ later))) = results ?s"
    if "length (results ?s) = nat N"
  proof -
    from inv that have "\<not> request_pending ?s" by (simp add: scan_inv_def)
    from scan_run_idle[OF this] show ?thesis by (simp add: scan_run_append)
  qed
  have d: "txn_active t \<and> request_pending t \<and> remaining t = r # rs \<and>
      Suc (length (results t)) = nat N \<longrightarrow>
        scan_step (Some N) ik t ReqSuccess =
          (t\<lparr>request_pending := False, cursor_at := Some r, remaining := rs,
             results := results t @ [item ik r]\<rparr>,
           [CallbackDone (Arr (results t @ [item ik r]))])"
    using assms by (auto simp: Let_def count_reached_def item_def)
  from a b c d show ?thesis by blast
qed

theorem getAllMatching_count_witness:
  "(0::int) < 3 \<and>
   length (results (fst (scan_run (Some 3) False (scan_init (Inr books))
      [ReqSuccess, ReqSuccess, ReqSuccess]))) = nat 3 \<and>
   advances (fst (scan_run (Some 3) False (scan_init (Inr books))
      [ReqSuccess, ReqSuccess, ReqSuccess])) = 2 \<and>
   \<not> request_pending (fst (scan_run (Some 3) False (scan_init (Inr books))
      [ReqSuccess, ReqSuccess, ReqSuccess])) \<and>
   remaining (fst (scan_run (Some 3) False (scan_init (Inr books))
      [ReqSuccess, ReqSuccess, ReqSuccess])) = drop 3 books \<and>
   advances (fst (scan_run (Some 3) False (scan_init (Inr books))
      ([ReqSuccess, ReqSuccess, ReqSuccess] @ [ReqSuccess, TxnComplete]))) = 2 \<and>
   fst (snd (getAllMatching (new_wrapper False) [OnSuccess 1] ''books'' (Some 3) False None
      (Inr books) [ReqSuccess, ReqSuccess, ReqSuccess])) =
     Fulfilled (Arr [Data 101, Data 102, Data 103]) \<and>
   length [Data 101, Data 102, Data 103] \<le> nat 3 \<and>
   txn_active (fst (scan_run (Some 3) False (scan_init (Inr books)) [ReqSuccess, ReqSuccess])) \<and>
   request_pending (fst (scan_run (Some 3) False (scan_init (Inr books))
      [ReqSuccess, ReqSuccess])) \<and>
   remaining (fst (scan_run (Some 3) False (scan_init (Inr books)) [ReqSuccess, ReqSuccess])) =
     books ! 2 # drop 3 books \<and>
   Suc (length (results (fst (scan_run (Some 3) False (scan_init (Inr books))
      [ReqSuccess, ReqSuccess])))) = nat 3 \<and>
   snd (scan_step (Some 3) False
      (fst (scan_run (Some 3) False (scan_init (Inr books)) [ReqSuccess, ReqSuccess]))
      ReqSuccess) = [CallbackDone (Arr [Data 101, Data 102, Data 103])] \<and>
   advances (fst (scan_step (Some 3) False
      (fst (scan_run (Some 3) False (scan_init (Inr books)) [ReqSuccess, ReqSuccess]))
      ReqSuccess)) = 2"
  using getAllMatching_count[where N = 3 and ik = False and cursor = "Inr books"
      and evs = "[ReqSuccess, ReqSuccess, ReqSuccess]" and wr = "new_wrapper False"
      and oevs = "[OnSuccess 1]" and storeName = "''books''" and tr = None
      and xs = "[Data 101, Data 102, Data 103]" and later = "[ReqSuccess, TxnComplete]"
      and t = "fst (scan_run (Some 3) False (scan_init (Inr books)) [ReqSuccess, ReqSuccess])"
      and r = "books ! 2" and rs = "drop 3 books"]
  by (simp add: Let_def getAllMatching_def transaction_def executor_def scan_callback_def
      scan_init_def books_def count_reached_def item_def open_def open_run_def open_init_def
      open_step_def open_resume_def new_wrapper_def)

lemma scan_step_active:
  "txn_active (fst (scan_step cnt ik s ev)) \<Longrightarrow>
   txn_active s \<and> (\<forall>c \<in> set (snd (scan_step cnt ik s ev)). \<exists>v. c = CallbackDone v)"
  by (cases ev) (auto simp: Let_def split: list.splits if_splits)

lemma scan_run_active:
  "txn_active (fst (scan_run cnt ik s evs)) \<Longrightarrow>
   txn_active s \<and> (\<forall>c \<in> set (snd (scan_run cnt ik s evs)). \<exists>v. c = CallbackDone v)"
proof (induction evs arbitrary: s)
  case Nil
  then show ?case by simp
next
  case (Cons ev evs)
  from Cons.prems have "txn_active (fst (scan_run cnt ik (fst (scan_step cnt ik s ev)) evs))"
    by (simp add: case_prod_beta)
  from Cons.IH[OF this] scan_step_active[of cnt ik s ev] show ?case
    by (auto simp: case_prod_beta)
qed

text \<open>
  C7. A scan whose transaction and cursor were opened. After the events \<open>pre\<close> the
  transaction is still live and \<^verbatim>\<open>done\<close> has not been called; then the transaction
  aborts with \<open>e\<close>. The promise of \<^verbatim>\<open>getAllMatching\<close> is rejected with \<open>e\<close>, whatever
  follows, and it was pending after every prefix of \<open>pre\<close>: at no time is it fulfilled
  with the accumulator.
\<close>

theorem scan_abort_rejects:
  assumes "snd (open wr oevs) = Fulfilled u"
    and "txn_active (fst (scan_run cnt ik (scan_init (Inr es)) pre))"
    and "\<forall>v. CallbackDone v \<notin> set (snd (scan_run cnt ik (scan_init (Inr es)) pre))"
  shows "fst (snd (getAllMatching wr oevs storeName cnt ik None (Inr es)
                     (pre @ TxnAbort e # post))) = Rejected e \<and>
     fst (snd (getAllMatching wr oevs storeName cnt ik None (Inr es) (take n pre))) = Pending"
proof -
  let ?s0 = "scan_init (Inr es)"
  let ?s1 = "fst (scan_run cnt ik ?s0 pre)"
  from scan_run_active[OF assms(2)] assms(3)
  have calls: "snd (scan_run cnt ik ?s0 pre) = []"
    by (cases "snd (scan_run cnt ik ?s0 pre)") auto
  have "snd (scan_run cnt ik ?s0 (take n pre @ drop n pre)) = []"
    using calls by simp
  then have calls_take: "snd (scan_run cnt ik ?s0 (take n pre)) = []"
    by (simp only: scan_run_append snd_conv append_is_Nil_conv)
  have ex: "executor (scan_callback (Inr es)) = Pending"
    by (simp add: executor_scan_callback)
  have step: "scan_step cnt ik ?s1 (TxnAbort e) =
      (?s1\<lparr>txn_active := False, request_pending := False\<rparr>, [OnAbort e])"
    using assms(2) by simp
  have "snd (scan_run cnt ik ?s0 (pre @ TxnAbort e # post)) =
      OnAbort e # snd (scan_run cnt ik (?s1\<lparr>txn_active := False, request_pending := False\<rparr>) post)"
    using calls step by (simp add: scan_run_append case_prod_beta del: scan_step.simps)
  then have a: "fst (snd (getAllMatching wr oevs storeName cnt ik None (Inr es)
                     (pre @ TxnAbort e # post))) = Rejected e"
    using assms(1) ex
    by (simp add: getAllMatching_promise transaction_promise foldl_txn_handler_settled)
  have b: "fst (snd (getAllMatching wr oevs storeName cnt ik None (Inr es) (take n pre))) = Pending"
    using assms(1) ex calls_take
    by (simp add: getAllMatching_promise transaction_promise)
  from a b show ?thesis by simp
qed

theorem scan_abort_rejects_witness:
  "snd (open (new_wrapper False) [OnSuccess 1]) = Fulfilled WrapperRef \<and>
   txn_active (fst (scan_run (Some 3) False (scan_init (Inr books)) [ReqSuccess, ReqSuccess])) \<and>
   snd (scan_run (Some 3) False (scan_init (Inr books)) [ReqSuccess, ReqSuccess]) = [] \<and>
   results (fst (scan_run (Some 3) False (scan_init (Inr books)) [ReqSuccess, ReqSuccess])) =
     [Data 101, Data 102] \<and>
   fst (snd (getAllMatching (new_wrapper False) [OnSuccess 1] ''books'' (Some 3) False None
      (Inr books) ([ReqSuccess, ReqSuccess] @ TxnAbort (Native 3) # [ReqSuccess]))) =
     Rejected (Native 3) \<and>
   fst (snd (getAllMatching (new_wrapper False) [OnSuccess 1] ''books'' (Some 3) False None
      (Inr books) (take 1 [ReqSuccess, ReqSuccess]))) = Pending"
  using scan_abort_rejects[where wr = "new_wrapper False" and oevs = "[OnSuccess 1]"
      and u = WrapperRef and cnt = "Some 3" and ik = False and es = books
      and pre = "[ReqSuccess, ReqSuccess]" and storeName = "''books''" and e = "Native 3"
      and post = "[ReqSuccess]" and n = 1]
  by (simp add: Let_def getAllMatching_def transaction_def executor_def scan_callback_def scan_init_def
      books_def count_reached_def open_def open_run_def open_init_def open_step_def
      open_resume_def new_wrapper_def)

section \<open>Properties of the polyfills and of the methods on the prototype\<close>

lemma visited_closed:
  "visited cnt k es =
     (case cnt of
        None \<Rightarrow> es
      | Some c \<Rightarrow> if c = 0 then es else take (nat (max 1 (c - int k))) es)"
proof (induction es arbitrary: k)
  case Nil
  then show ?case by (simp split: option.splits)
next
  case (Cons e es)
  show ?case
  proof (cases cnt)
    case None
    then show ?thesis using Cons.IH[of "Suc k"] by (simp add: count_reached_def)
  next
    case (Some c)
    show ?thesis
    proof (cases "c = 0")
      case True
      then show ?thesis using Some Cons.IH[of "Suc k"] by (simp add: count_reached_def)
    next
      case False
      show ?thesis
      proof (cases "c \<le> int (Suc k)")
        case True
        then have "nat (max 1 (c - int k)) = Suc 0" by (auto simp: max_def)
        then show ?thesis using Some False True by (simp add: count_reached_def)
      next
        case gt: False
        then have "nat (max 1 (c - int k)) = Suc (nat (max 1 (c - int (Suc k))))"
          by (auto simp: max_def)
        then show ?thesis
          using Some False gt Cons.IH[of "Suc k"] by (simp add: count_reached_def)
      qed
    qed
  qed
qed

lemma scan_step_idle_cursor:
  "\<not> request_pending s \<Longrightarrow>
   \<not> request_pending (fst (scan_step cnt ik s ev)) \<and>
   cursor_at (fst (scan_step cnt ik s ev)) = cursor_at s"
  by (cases ev) simp_all

lemma scan_run_idle_cursor:
  "\<not> request_pending s \<Longrightarrow> cursor_at (fst (scan_run cnt ik s evs)) = cursor_at s"
proof (induction evs arbitrary: s)
  case Nil
  then show ?case by simp
next
  case (Cons ev evs)
  note st = scan_step_idle_cursor[OF Cons.prems, of cnt ik ev]
  from st have "\<not> request_pending (fst (scan_step cnt ik s ev))" by simp
  from Cons.IH[OF this] st show ?case by (simp add: case_prod_beta)
qed

lemma scan_run_complete:
  "txn_active s \<Longrightarrow> request_pending s \<Longrightarrow> length (remaining s) < n \<Longrightarrow>
   (\<exists>cs. snd (scan_run cnt ik s (replicate n ReqSuccess @ rest)) =
      CallbackDone (Arr (results s @ map (item ik) (visited cnt (length (results s)) (remaining s))))
        # cs) \<and>
   cursor_at (fst (scan_run cnt ik s (replicate n ReqSuccess @ rest))) =
     stops_at cnt (length (results s)) (remaining s)"
proof (induction n arbitrary: s)
  case 0
  then show ?case by simp
next
  case (Suc n)
  show ?case
  proof (cases "remaining s")
    case Nil
    let ?s1 = "s\<lparr>request_pending := False, cursor_at := None\<rparr>"
    have step: "scan_step cnt ik s ReqSuccess = (?s1, [CallbackDone (Arr (results s))])"
      using Suc.prems Nil by simp
    have idle: "\<not> request_pending ?s1" by simp
    show ?thesis
      using scan_run_idle_cursor[OF idle, of cnt ik "replicate n ReqSuccess @ rest"]
      by (simp add: Nil step case_prod_beta del: scan_step.simps)
  next
    case (Cons e es)
    let ?rs = "results s @ [item ik e]"
    show ?thesis
    proof (cases "count_reached cnt (Suc (length (results s)))")
      case True
      let ?s1 = "s\<lparr>request_pending := False, cursor_at := Some e, remaining := es,
        results := ?rs\<rparr>"
      have step: "scan_step cnt ik s ReqSuccess = (?s1, [CallbackDone (Arr ?rs)])"
        using Suc.prems Cons True by (simp add: item_def Let_def)
      have idle: "\<not> request_pending ?s1" by simp
      show ?thesis
        using scan_run_idle_cursor[OF idle, of cnt ik "replicate n ReqSuccess @ rest"] True
        by (simp add: Cons step case_prod_beta del: scan_step.simps)
    next
      case False
      let ?s1 = "s\<lparr>request_pending := False, cursor_at := Some e, remaining := es,
        results := ?rs, request_pending := True, advances := Suc (advances s)\<rparr>"
      have step: "scan_step cnt ik s ReqSuccess = (?s1, [])"
        using Suc.prems Cons False by (simp add: item_def Let_def)
      have pre: "txn_active ?s1" "request_pending ?s1" "length (remaining ?s1) < n"
        using Suc.prems Cons by simp_all
      from Suc.IH[OF pre] False show ?thesis
        by (simp add: Cons step case_prod_beta del: scan_step.simps)
    qed
  qed
qed

lemma getAllMatching_complete:
  assumes "snd (open wr oevs) = Fulfilled u" and "length es < n"
  shows "fst (snd (getAllMatching wr oevs storeName cnt ik None (Inr es)
                     (replicate n ReqSuccess @ rest))) =
           Fulfilled (Arr (map (item ik) (visited cnt 0 es))) \<and>
         snd (snd (getAllMatching wr oevs storeName cnt ik None (Inr es)
                     (replicate n ReqSuccess @ rest))) = stops_at cnt 0 es"
proof -
  let ?s0 = "scan_init (Inr es)"
  have s0: "txn_active ?s0" "request_pending ?s0" "length (remaining ?s0) < n"
    "results ?s0 = []" "remaining ?s0 = es"
    using assms(2) by (simp_all add: scan_init_def)
  from scan_run_complete[OF s0(1,2,3), of cnt ik rest] obtain cs where
    calls: "snd (scan_run cnt ik ?s0 (replicate n ReqSuccess @ rest)) =
      CallbackDone (Arr (map (item ik) (visited cnt 0 es))) # cs"
    and cur: "cursor_at (fst (scan_run cnt ik ?s0 (replicate n ReqSuccess @ rest))) =
      stops_at cnt 0 es"
    by (auto simp: s0)
  have ex: "executor (scan_callback (Inr es)) = Pending"
    by (simp add: executor_scan_callback)
  have "fst (snd (getAllMatching wr oevs storeName cnt ik None (Inr es)
                     (replicate n ReqSuccess @ rest))) =
           Fulfilled (Arr (map (item ik) (visited cnt 0 es)))"
    using assms(1) ex calls
    by (simp add: getAllMatching_promise transaction_promise foldl_txn_handler_settled)
  moreover have "snd (snd (getAllMatching wr oevs storeName cnt ik None (Inr es)
                     (replicate n ReqSuccess @ rest))) = stops_at cnt 0 es"
    using cur by (simp add: getAllMatching_def case_prod_beta)
  ultimately show ?thesis by simp
qed

lemma prototype_eq:
  "prototype native m =
     (if native m then Some (Wrapped m (if m \<in> {Add, Put, Clear, Delete} then ReadWrite else ReadOnly))
      else class_methods m)"
  by (cases m) (simp_all add: prototype_def methodsToWrap_def install_def class_methods_def)

lemma open_step_txns: "txns (w (open_step s ev)) = txns (w s)"
  by (cases ev; cases "inner s")
    (simp_all add: open_step_def open_resume_def Let_def split: promise.splits)

lemma foldl_open_step_txns: "txns (w (foldl open_step s evs)) = txns (w s)"
  by (induction evs arbitrary: s) (simp_all add: open_step_txns)

lemma open_txns: "txns (fst (open wr oevs)) = txns wr"
  by (simp add: open_def open_run_def foldl_open_step_txns open_init_def)

lemma polyfill_fst:
  "fst (getAll wr oevs storeName cnt tr cursor evs) =
     fst (getAllMatching wr oevs storeName cnt False tr cursor evs)"
  "fst (getAllKeys wr oevs storeName cnt tr cursor evs) =
     fst (getAllMatching wr oevs storeName cnt True tr cursor evs)"
  "fst (getKey native wr storeName en) = fst (this_getAllKeys native wr storeName (Some 1) en)"
  by (simp_all add: getAll_def getAllKeys_def getKey_def case_prod_beta)

lemma this_getAllKeys_eq:
  "this_getAllKeys native wr storeName cnt en =
     (if native GetAllKeys
      then call wr (env_open en) GetAllKeys storeName ReadOnly (env_txn_raises en)
             (env_store_raises en) (env_request en) (env_events en)
      else getAllKeys wr (env_open en) storeName cnt (env_txn_raises en) (env_cursor en)
             (env_events en))"
  by (simp add: this_getAllKeys_def prototype_eq class_methods_def)

text \<open>Whether a call of \<^verbatim>\<open>transaction\<close> opens a transaction is decided by
  \<^verbatim>\<open>open()\<close> and by \<^verbatim>\<open>this._db.transaction\<close> alone.\<close>

lemma transaction_txns_opened:
  "snd (open wr oevs) = Fulfilled u \<Longrightarrow>
   txns (fst (transaction wr oevs storeNames type None cb evs)) =
     txns wr @ [(storeNames, type, invoked cb)]"
  using open_txns[of wr oevs]
  by (cases "open wr oevs") (simp add: transaction_def)

lemma transaction_txns_not_opened:
  "(\<forall>u. snd (open wr oevs) \<noteq> Fulfilled u) \<or> tr \<noteq> None \<Longrightarrow>
   txns (fst (transaction wr oevs storeNames type tr cb evs)) = txns wr"
  using open_txns[of wr oevs]
  by (cases "open wr oevs") (auto simp: transaction_def split: promise.splits option.splits)

lemma invoked_call_callback_eq:
  "invoked (call_callback m sr rq) = (if sr = None then [NativeMethod m] else [])"
  by (simp add: call_callback_def split: option.splits sum.splits)

lemma invoked_scan_callback_eq:
  "invoked (scan_callback cursor) = (if isl cursor then [] else [OpenCursor])"
  by (simp add: scan_callback_def split: sum.splits)

lemma call_txns_opened:
  "snd (open wr oevs) = Fulfilled u \<Longrightarrow>
   txns (fst (call wr oevs m storeName type None sr rq evs)) =
     txns wr @ [([storeName], type, if sr = None then [NativeMethod m] else [])]"
  by (simp add: call_def transaction_txns_opened invoked_call_callback_eq)

lemma call_txns_not_opened:
  "(\<forall>u. snd (open wr oevs) \<noteq> Fulfilled u) \<or> tr \<noteq> None \<Longrightarrow>
   txns (fst (call wr oevs m storeName type tr sr rq evs)) = txns wr"
  by (simp add: call_def transaction_txns_not_opened)

lemma getAllMatching_txns_opened:
  "snd (open wr oevs) = Fulfilled u \<Longrightarrow>
   txns (fst (getAllMatching wr oevs storeName cnt ik None cursor evs)) =
     txns wr @ [([storeName], ReadOnly, if isl cursor then [] else [OpenCursor])]"
  by (simp add: getAllMatching_def case_prod_beta transaction_txns_opened
      invoked_scan_callback_eq)

lemma getAllMatching_txns_not_opened:
  "(\<forall>u. snd (open wr oevs) \<noteq> Fulfilled u) \<or> tr \<noteq> None \<Longrightarrow>
   txns (fst (getAllMatching wr oevs storeName cnt ik tr cursor evs)) = txns wr"
  by (simp add: getAllMatching_def case_prod_beta transaction_txns_not_opened)

lemma invoke_fst:
  assumes "invoke native wr m storeName cnt en = Inr (wr', p)"
  shows "native m \<longrightarrow>
       wr' = fst (call wr (env_open en) m storeName
         (if m \<in> {Add, Put, Clear, Delete} then ReadWrite else ReadOnly)
         (env_txn_raises en) (env_store_raises en) (env_request en) (env_events en))"
    and "\<not> native m \<longrightarrow> m \<in> {GetKey, GetAll, GetAllKeys}"
    and "\<not> native m \<and> m = GetKey \<and> native GetAllKeys \<longrightarrow>
       wr' = fst (call wr (env_open en) GetAllKeys storeName ReadOnly
         (env_txn_raises en) (env_store_raises en) (env_request en) (env_events en))"
    and "\<not> native m \<and> \<not> (m = GetKey \<and> native GetAllKeys) \<longrightarrow>
       (\<exists>c ik. wr' = fst (getAllMatching wr (env_open en) storeName c ik
         (env_txn_raises en) (env_cursor en) (env_events en)))"
proof -
  show "native m \<longrightarrow>
       wr' = fst (call wr (env_open en) m storeName
         (if m \<in> {Add, Put, Clear, Delete} then ReadWrite else ReadOnly)
         (env_txn_raises en) (env_store_raises en) (env_request en) (env_events en))"
    using assms by (auto simp: invoke_def prototype_eq)
  show m: "\<not> native m \<longrightarrow> m \<in> {GetKey, GetAll, GetAllKeys}"
    using assms
    by (cases m) (auto simp: invoke_def prototype_eq class_methods_def split: if_splits)
  show "\<not> native m \<and> m = GetKey \<and> native GetAllKeys \<longrightarrow>
       wr' = fst (call wr (env_open en) GetAllKeys storeName ReadOnly
         (env_txn_raises en) (env_store_raises en) (env_request en) (env_events en))"
    using assms
    by (auto simp: invoke_def prototype_eq class_methods_def
        dest!: arg_cong[where f = fst] simp: polyfill_fst this_getAllKeys_eq)
  show "\<not> native m \<and> \<not> (m = GetKey \<and> native GetAllKeys) \<longrightarrow>
       (\<exists>c ik. wr' = fst (getAllMatching wr (env_open en) storeName c ik
         (env_txn_raises en) (env_cursor en) (env_events en)))"
  proof
    assume h: "\<not> native m \<and> \<not> (m = GetKey \<and> native GetAllKeys)"
    with m have "m \<in> {GetKey, GetAll, GetAllKeys}" by simp
    with h assms show "\<exists>c ik. wr' = fst (getAllMatching wr (env_open en) storeName c ik
         (env_txn_raises en) (env_cursor en) (env_events en))"
      by (auto simp: invoke_def prototype_eq class_methods_def
          dest!: arg_cong[where f = fst] simp: polyfill_fst this_getAllKeys_eq) blast+
  qed
qed

text \<open>
  C8. A call of the method \<open>m\<close> of the wrapper whose connection opens and whose
  \<^verbatim>\<open>this._db.transaction\<close> returns opens exactly one transaction. It is over the
  store named; its mode is \<^verbatim>\<open>'readwrite'\<close> for \<^verbatim>\<open>add\<close>, \<^verbatim>\<open>put\<close>,
  \<^verbatim>\<open>clear\<close>, \<^verbatim>\<open>delete\<close> and \<^verbatim>\<open>'readonly'\<close> for the other methods; and what runs
  in it is the native method \<open>m\<close> where the platform has it, else (for \<^verbatim>\<open>getKey\<close>,
  \<^verbatim>\<open>getAll\<close>, \<^verbatim>\<open>getAllKeys\<close>) a cursor, or the native \<^verbatim>\<open>getAllKeys\<close> for a
  \<^verbatim>\<open>getKey\<close> on a platform that has \<^verbatim>\<open>getAllKeys\<close> (nothing runs when looking up
  the store or opening the cursor raises). A call whose connection does not open, or
  whose \<^verbatim>\<open>this._db.transaction\<close> raises, opens no transaction and runs no primitive.
  The same for \<^verbatim>\<open>getAllMatching\<close>: its transaction is read-only and runs a cursor.
\<close>

theorem primitive_modes:
  assumes "invoke native wr m storeName cnt en = Inr (wr', p)"
  shows "(snd (open wr (env_open en)) = Fulfilled u \<and> env_txn_raises en = None \<longrightarrow>
       txns wr' =
         txns wr @
         [([storeName], (if m \<in> {Add, Put, Clear, Delete} then ReadWrite else ReadOnly),
           (if native m then (if env_store_raises en = None then [NativeMethod m] else [])
            else if m = GetKey \<and> native GetAllKeys
            then (if env_store_raises en = None then [NativeMethod GetAllKeys] else [])
            else (if isl (env_cursor en) then [] else [OpenCursor])))]) \<and>
     ((\<forall>u. snd (open wr (env_open en)) \<noteq> Fulfilled u) \<or> env_txn_raises en \<noteq> None \<longrightarrow>
       txns wr' = txns wr) \<and>
     (snd (open wr oevs) = Fulfilled u \<longrightarrow>
       txns (fst (getAllMatching wr oevs storeName cnt ik None cursor evs)) =
         txns wr @ [([storeName], ReadOnly, if isl cursor then [] else [OpenCursor])]) \<and>
     ((\<forall>u. snd (open wr oevs) \<noteq> Fulfilled u) \<or> tr \<noteq> None \<longrightarrow>
       txns (fst (getAllMatching wr oevs storeName cnt ik tr cursor evs)) = txns wr)"
proof -
  note f = invoke_fst[OF assms]
  have a: "snd (open wr (env_open en)) = Fulfilled u \<and> env_txn_raises en = None \<longrightarrow>
       txns wr' =
         txns wr @
         [([storeName], (if m \<in> {Add, Put, Clear, Delete} then ReadWrite else ReadOnly),
           (if native m then (if env_store_raises en = None then [NativeMethod m] else [])
            else if m = GetKey \<and> native GetAllKeys
            then (if env_store_raises en = None then [NativeMethod GetAllKeys] else [])
            else (if isl (env_cursor en) then [] else [OpenCursor])))]"
  proof
    assume h: "snd (open wr (env_open en)) = Fulfilled u \<and> env_txn_raises en = None"
    then have o: "snd (open wr (env_open en)) = Fulfilled u" and t: "env_txn_raises en = None"
      by simp_all
    consider "native m" | "\<not> native m" "m = GetKey \<and> native GetAllKeys"
      | "\<not> native m" "\<not> (m = GetKey \<and> native GetAllKeys)"
      by blast
    then show "txns wr' =
         txns wr @
         [([storeName], (if m \<in> {Add, Put, Clear, Delete} then ReadWrite else ReadOnly),
           (if native m then (if env_store_raises en = None then [NativeMethod m] else [])
            else if m = GetKey \<and> native GetAllKeys
            then (if env_store_raises en = None then [NativeMethod GetAllKeys] else [])
            else (if isl (env_cursor en) then [] else [OpenCursor])))]"
    proof cases
      case 1
      with f(1) call_txns_opened[OF o] t show ?thesis by simp
    next
      case 2
      with f(3) call_txns_opened[OF o] t show ?thesis by simp
    next
      case 3
      with f(4) obtain c ik where "wr' = fst (getAllMatching wr (env_open en) storeName c ik
         (env_txn_raises en) (env_cursor en) (env_events en))"
        by blast
      moreover from 3 f(2) have "m \<notin> {Add, Put, Clear, Delete}" by auto
      ultimately show ?thesis
        using 3 getAllMatching_txns_opened[OF o, of storeName c ik "env_cursor en"] t
        by simp
    qed
  qed
  have b: "(\<forall>u. snd (open wr (env_open en)) \<noteq> Fulfilled u) \<or> env_txn_raises en \<noteq> None \<longrightarrow>
       txns wr' = txns wr"
  proof
    assume h: "(\<forall>u. snd (open wr (env_open en)) \<noteq> Fulfilled u) \<or> env_txn_raises en \<noteq> None"
    consider "native m" | "\<not> native m" "m = GetKey \<and> native GetAllKeys"
      | "\<not> native m" "\<not> (m = GetKey \<and> native GetAllKeys)"
      by blast
    then show "txns wr' = txns wr"
    proof cases
      case 1
      with f(1) call_txns_not_opened[OF h] show ?thesis by simp
    next
      case 2
      with f(3) call_txns_not_opened[OF h] show ?thesis by simp
    next
      case 3
      with f(4) getAllMatching_txns_not_opened[OF h] show ?thesis by auto
    qed
  qed
  have c: "snd (open wr oevs) = Fulfilled u \<longrightarrow>
       txns (fst (getAllMatching wr oevs storeName cnt ik None cursor evs)) =
         txns wr @ [([storeName], ReadOnly, if isl cursor then [] else [OpenCursor])]"
    by (simp add: getAllMatching_txns_opened)
  have d: "(\<forall>u. snd (open wr oevs) \<noteq> Fulfilled u) \<or> tr \<noteq> None \<longrightarrow>
       txns (fst (getAllMatching wr oevs storeName cnt ik tr cursor evs)) = txns wr"
    using getAllMatching_txns_not_opened[of wr oevs tr] by blast
  from a b c d show ?thesis by blast
qed

theorem primitive_modes_witness:
  "invoke (\<lambda>m. True) (new_wrapper False) Put ''books'' None books_env =
     Inr (\<lparr>db = Some 1, has_onupgradeneeded = False, native_opens = 1, closed = [],
           upgrade_aborts = [], upgrade_callbacks = [], versionchange_bound = [1],
           txns = [([''books''], ReadWrite, [NativeMethod Put])]\<rparr>, Fulfilled (Data 1)) \<and>
   snd (open (new_wrapper False) (env_open books_env)) = Fulfilled WrapperRef \<and>
   env_txn_raises books_env = None \<and>
   invoke (\<lambda>m. m \<noteq> GetAll) (new_wrapper False) GetAll ''books'' (Some 3) books_env =
     Inr (\<lparr>db = Some 1, has_onupgradeneeded = False, native_opens = 1, closed = [],
           upgrade_aborts = [], upgrade_callbacks = [], versionchange_bound = [1],
           txns = [([''books''], ReadOnly, [OpenCursor])]\<rparr>,
          Fulfilled (Arr [Data 101, Data 102, Data 103])) \<and>
   invoke (\<lambda>m. True) (new_wrapper False) Put ''books'' None
       (books_env\<lparr>env_open := [TimerFires]\<rparr>) =
     Inr (\<lparr>db = None, has_onupgradeneeded = False, native_opens = 1, closed = [],
           upgrade_aborts = [], upgrade_callbacks = [], versionchange_bound = [],
           txns = []\<rparr>, Rejected OpenTimedOut)"
  using primitive_modes[where native = "\<lambda>m. True" and wr = "new_wrapper False" and m = Put
      and storeName = "''books''" and cnt = None and en = books_env and u = WrapperRef
      and wr' = "\<lparr>db = Some 1, has_onupgradeneeded = False, native_opens = 1, closed = [],
           upgrade_aborts = [], upgrade_callbacks = [], versionchange_bound = [1],
           txns = [([''books''], ReadWrite, [NativeMethod Put])]\<rparr>"
      and p = "Fulfilled (Data 1)"]
  by (simp add: Let_def invoke_def prototype_def methodsToWrap_def install_def class_methods_def
      call_def call_callback_def getAll_def getAllMatching_def transaction_def executor_def
      scan_callback_def scan_init_def books_env_def books_def count_reached_def open_def
      open_run_def open_init_def open_step_def open_resume_def new_wrapper_def)

lemma getAll_complete:
  assumes "snd (open wr oevs) = Fulfilled u" and "length es < n"
  shows "snd (getAll wr oevs storeName cnt None (Inr es) (replicate n ReqSuccess @ rest)) =
     Fulfilled (Arr (map entry_value (visited cnt 0 es)))"
  using getAllMatching_complete[OF assms, of storeName cnt False rest]
  by (simp add: getAll_def case_prod_beta item_def)

lemma getAllKeys_complete:
  assumes "snd (open wr oevs) = Fulfilled u" and "length es < n"
  shows "snd (getAllKeys wr oevs storeName cnt None (Inr es) (replicate n ReqSuccess @ rest)) =
     Fulfilled (Arr (replicate (length (visited cnt 0 es)) (read_key (stops_at cnt 0 es) CursorRef)))"
proof -
  have "read_key (stops_at cnt 0 es) \<circ> item True =
      (\<lambda>e. read_key (stops_at cnt 0 es) CursorRef)"
    by (auto simp: item_def)
  then show ?thesis
    using getAllMatching_complete[OF assms, of storeName cnt True rest]
    by (simp add: getAllKeys_def case_prod_beta map_replicate_const)
qed

lemma getKey_emulated:
  assumes "\<not> native GetAllKeys" and "snd (open wr (env_open en)) = Fulfilled u"
    and "env_txn_raises en = None" and "env_cursor en = Inr es"
    and "env_events en = replicate n ReqSuccess @ rest" and "length es < n"
  shows "snd (getKey native wr storeName en) =
     Fulfilled (case es of [] \<Rightarrow> Undefined | e # es' \<Rightarrow> KeyVal (entry_key e))"
  using getAllKeys_complete[OF assms(2,6), of storeName "Some 1" rest] assms(1)
  by (cases es)
    (simp_all add: getKey_def this_getAllKeys_eq case_prod_beta count_reached_def assms(3,4,5))

lemma call_run_first:
  "call_run r \<lparr>call_pending = True, call_active = True\<rparr> (replicate (Suc n) ReqSuccess @ rest) =
   CallbackDone r # call_run r \<lparr>call_pending = False, call_active = True\<rparr>
     (replicate n ReqSuccess @ rest)"
  by simp

lemma getKey_native_getAllKeys:
  assumes "native GetAllKeys" and "snd (open wr (env_open en)) = Fulfilled u"
    and "env_txn_raises en = None" and "env_store_raises en = None"
    and "env_request en = Inr (Arr ks)"
    and "env_events en = replicate n ReqSuccess @ rest" and "0 < n"
  shows "snd (getKey native wr storeName en) =
     Fulfilled (case ks of [] \<Rightarrow> Undefined | k # ks' \<Rightarrow> k)"
proof -
  from assms(7) obtain n' where n: "n = Suc n'" by (cases n) auto
  have ex: "executor (call_callback GetAllKeys None (Inr (Arr ks))) = Pending"
    by (simp add: executor_def call_callback_def)
  have "snd (call wr (env_open en) GetAllKeys storeName ReadOnly None None (Inr (Arr ks))
      (replicate n ReqSuccess @ rest)) = Fulfilled (Arr ks)"
    using assms(2) ex
    by (simp add: call_def transaction_promise n call_run_first foldl_txn_handler_settled
        del: call_run.simps replicate.simps)
  then show ?thesis
    using assms(1)
    by (cases ks) (simp_all add: getKey_def this_getAllKeys_eq case_prod_beta assms(3,4,5,6))
qed

lemma books_env_events: "env_events books_env = replicate 6 ReqSuccess @ [TxnComplete]"
  by (simp add: books_env_def eval_nat_numeral)

text \<open>
  C4, as amended. The platform lacks the method \<open>m\<close>; the connection and the
  transaction open, the cursor opens over the records \<open>es\<close>, and the engine lets the
  request succeed more often than there are records. Then \<^verbatim>\<open>getAll\<close> is fulfilled
  with the values of the first records (all of them without a count or with count 0,
  else as many as the count says, one for a negative count) and \<^verbatim>\<open>getAllKeys\<close> with an
  array of as many entries. \<^verbatim>\<open>getKey\<close> is fulfilled with the key of the first record,
  or with \<^verbatim>\<open>undefined\<close> when there is none, on a platform that lacks
  \<^verbatim>\<open>getAllKeys\<close> too; on a platform that has \<^verbatim>\<open>getAllKeys\<close> it runs no cursor: it
  is fulfilled with the first element of the array that the native \<^verbatim>\<open>getAllKeys\<close>
  yields. \<^verbatim>\<open>get\<close> and \<^verbatim>\<open>count\<close> have no emulation, and calling them raises a
  \<^verbatim>\<open>TypeError\<close>.
\<close>

theorem emulated_reads:
  assumes "\<not> native m" and "snd (open wr (env_open en)) = Fulfilled u"
    and "env_txn_raises en = None" and "env_cursor en = Inr es"
    and "env_events en = replicate n ReqSuccess @ rest" and "length es < n"
  shows "(m = GetAll \<longrightarrow>
       (\<exists>wr'. invoke native wr m storeName cnt en =
          Inr (wr', Fulfilled (Arr (map entry_value
            (case cnt of None \<Rightarrow> es
             | Some c \<Rightarrow> if c = 0 then es else take (nat (max 1 c)) es)))))) \<and>
     (m = GetAllKeys \<longrightarrow>
       (\<exists>wr' ks. invoke native wr m storeName cnt en = Inr (wr', Fulfilled (Arr ks)) \<and>
          length ks = length (case cnt of None \<Rightarrow> es
             | Some c \<Rightarrow> if c = 0 then es else take (nat (max 1 c)) es))) \<and>
     (m = GetKey \<and> \<not> native GetAllKeys \<longrightarrow>
       (\<exists>wr'. invoke native wr m storeName cnt en =
          Inr (wr', Fulfilled (case es of [] \<Rightarrow> Undefined | e # es' \<Rightarrow> KeyVal (entry_key e))))) \<and>
     (m = GetKey \<and> native GetAllKeys \<and> env_store_raises en = None \<and>
      env_request en = Inr (Arr ks) \<longrightarrow>
       (\<exists>wr'. invoke native wr m storeName cnt en =
          Inr (wr', Fulfilled (case ks of [] \<Rightarrow> Undefined | k # ks' \<Rightarrow> k)))) \<and>
     (m = Get \<or> m = Count \<longrightarrow> invoke native wr m storeName cnt en = Inl TypeError)"
proof -
  have v: "visited cnt 0 es =
      (case cnt of None \<Rightarrow> es | Some c \<Rightarrow> if c = 0 then es else take (nat (max 1 c)) es)"
    by (simp add: visited_closed split: option.splits)
  have a: "m = GetAll \<longrightarrow>
       (\<exists>wr'. invoke native wr m storeName cnt en =
          Inr (wr', Fulfilled (Arr (map entry_value
            (case cnt of None \<Rightarrow> es
             | Some c \<Rightarrow> if c = 0 then es else take (nat (max 1 c)) es)))))"
  proof
    assume m: "m = GetAll"
    let ?r = "getAll wr (env_open en) storeName cnt (env_txn_raises en) (env_cursor en)
        (env_events en)"
    have "invoke native wr m storeName cnt en = Inr ?r"
      using assms(1) m by (simp add: invoke_def prototype_eq class_methods_def)
    moreover have "snd ?r = Fulfilled (Arr (map entry_value
            (case cnt of None \<Rightarrow> es
             | Some c \<Rightarrow> if c = 0 then es else take (nat (max 1 c)) es)))"
      using getAll_complete[OF assms(2,6), of storeName cnt rest]
      by (simp add: assms(3,4,5) v)
    ultimately show "\<exists>wr'. invoke native wr m storeName cnt en =
          Inr (wr', Fulfilled (Arr (map entry_value
            (case cnt of None \<Rightarrow> es
             | Some c \<Rightarrow> if c = 0 then es else take (nat (max 1 c)) es))))"
      by (metis surjective_pairing)
  qed
  have b: "m = GetAllKeys \<longrightarrow>
       (\<exists>wr' ks. invoke native wr m storeName cnt en = Inr (wr', Fulfilled (Arr ks)) \<and>
          length ks = length (case cnt of None \<Rightarrow> es
             | Some c \<Rightarrow> if c = 0 then es else take (nat (max 1 c)) es))"
  proof
    assume m: "m = GetAllKeys"
    let ?r = "getAllKeys wr (env_open en) storeName cnt (env_txn_raises en) (env_cursor en)
        (env_events en)"
    let ?ks = "replicate (length (visited cnt 0 es)) (read_key (stops_at cnt 0 es) CursorRef)"
    have "invoke native wr m storeName cnt en = Inr ?r"
      using assms(1) m by (simp add: invoke_def prototype_eq class_methods_def)
    moreover have "snd ?r = Fulfilled (Arr ?ks)"
      using getAllKeys_complete[OF assms(2,6), of storeName cnt rest]
      by (simp add: assms(3,4,5))
    ultimately have "invoke native wr m storeName cnt en = Inr (fst ?r, Fulfilled (Arr ?ks))"
      by (metis surjective_pairing)
    moreover have "length ?ks = length (case cnt of None \<Rightarrow> es
             | Some c \<Rightarrow> if c = 0 then es else take (nat (max 1 c)) es)"
      by (simp add: v)
    ultimately show "\<exists>wr' ks. invoke native wr m storeName cnt en = Inr (wr', Fulfilled (Arr ks)) \<and>
          length ks = length (case cnt of None \<Rightarrow> es
             | Some c \<Rightarrow> if c = 0 then es else take (nat (max 1 c)) es)"
      by blast
  qed
  have i: "invoke native wr m storeName cnt en = Inr (getKey native wr storeName en)"
    if "m = GetKey"
    using assms(1) that by (simp add: invoke_def prototype_eq class_methods_def)
  have c: "m = GetKey \<and> \<not> native GetAllKeys \<longrightarrow>
       (\<exists>wr'. invoke native wr m storeName cnt en =
          Inr (wr', Fulfilled (case es of [] \<Rightarrow> Undefined | e # es' \<Rightarrow> KeyVal (entry_key e))))"
  proof
    assume m: "m = GetKey \<and> \<not> native GetAllKeys"
    then have "snd (getKey native wr storeName en) =
        Fulfilled (case es of [] \<Rightarrow> Undefined | e # es' \<Rightarrow> KeyVal (entry_key e))"
      using getKey_emulated[OF _ assms(2,3,4,5,6)] by simp
    with i m show "\<exists>wr'. invoke native wr m storeName cnt en =
          Inr (wr', Fulfilled (case es of [] \<Rightarrow> Undefined | e # es' \<Rightarrow> KeyVal (entry_key e)))"
      by (metis surjective_pairing)
  qed
  have d: "m = GetKey \<and> native GetAllKeys \<and> env_store_raises en = None \<and>
      env_request en = Inr (Arr ks) \<longrightarrow>
       (\<exists>wr'. invoke native wr m storeName cnt en =
          Inr (wr', Fulfilled (case ks of [] \<Rightarrow> Undefined | k # ks' \<Rightarrow> k)))"
  proof
    assume m: "m = GetKey \<and> native GetAllKeys \<and> env_store_raises en = None \<and>
      env_request en = Inr (Arr ks)"
    from assms(6) have n: "0 < n" by simp
    from m have "snd (getKey native wr storeName en) =
        Fulfilled (case ks of [] \<Rightarrow> Undefined | k # ks' \<Rightarrow> k)"
      using getKey_native_getAllKeys[OF _ assms(2,3) _ _ assms(5) n] by simp
    with i m show "\<exists>wr'. invoke native wr m storeName cnt en =
          Inr (wr', Fulfilled (case ks of [] \<Rightarrow> Undefined | k # ks' \<Rightarrow> k))"
      by (metis surjective_pairing)
  qed
  have e: "m = Get \<or> m = Count \<longrightarrow> invoke native wr m storeName cnt en = Inl TypeError"
    using assms(1) by (auto simp: invoke_def prototype_eq class_methods_def)
  from a b c d e show ?thesis by blast
qed

theorem emulated_reads_witness:
  "snd (open (new_wrapper False) (env_open books_env)) = Fulfilled WrapperRef \<and>
   env_txn_raises books_env = None \<and> env_cursor books_env = Inr books \<and>
   env_events books_env = replicate 6 ReqSuccess @ [TxnComplete] \<and> length books < 6 \<and>
   (\<exists>wr'. invoke (\<lambda>m. False) (new_wrapper False) GetAll ''books'' (Some 3) books_env =
      Inr (wr', Fulfilled (Arr [Data 101, Data 102, Data 103]))) \<and>
   (\<exists>wr' ks. invoke (\<lambda>m. False) (new_wrapper False) GetAllKeys ''books'' (Some 3) books_env =
      Inr (wr', Fulfilled (Arr ks)) \<and> length ks = 3) \<and>
   (\<exists>wr'. invoke (\<lambda>m. False) (new_wrapper False) GetKey ''books'' None books_env =
      Inr (wr', Fulfilled (KeyVal 1))) \<and>
   (\<exists>wr'. invoke (\<lambda>m. m = GetAllKeys) (new_wrapper False) GetKey ''books'' None
        (books_env\<lparr>env_request := Inr (Arr [KeyVal 1, KeyVal 2])\<rparr>) =
      Inr (wr', Fulfilled (KeyVal 1))) \<and>
   invoke (\<lambda>m. False) (new_wrapper False) Get ''books'' None books_env = Inl TypeError"
proof -
  have o: "snd (open (new_wrapper False) (env_open books_env)) = Fulfilled WrapperRef"
    by (simp add: books_env_def open_def open_run_def open_init_def open_step_def
        open_resume_def new_wrapper_def)
  have e: "env_txn_raises books_env = None" "env_cursor books_env = Inr books"
    by (simp_all add: books_env_def)
  have l: "length books < 6" by (simp add: books_def)
  note t = emulated_reads[where native = "\<lambda>m. False" and wr = "new_wrapper False"
      and en = books_env and u = WrapperRef and es = books and n = 6
      and rest = "[TxnComplete]" and storeName = "''books''", OF _ o e books_env_events l]
  have a: "\<exists>wr'. invoke (\<lambda>m. False) (new_wrapper False) GetAll ''books'' (Some 3) books_env =
      Inr (wr', Fulfilled (Arr [Data 101, Data 102, Data 103]))"
    using t[where m = GetAll and cnt = "Some 3"] by (simp add: books_def)
  have b: "\<exists>wr' ks. invoke (\<lambda>m. False) (new_wrapper False) GetAllKeys ''books'' (Some 3) books_env =
      Inr (wr', Fulfilled (Arr ks)) \<and> length ks = 3"
    using t[where m = GetAllKeys and cnt = "Some 3"] by (simp add: books_def numeral_3_eq_3)
  have c: "\<exists>wr'. invoke (\<lambda>m. False) (new_wrapper False) GetKey ''books'' None books_env =
      Inr (wr', Fulfilled (KeyVal 1))"
    using t[where m = GetKey and cnt = None] by (simp add: books_def)
  have d: "invoke (\<lambda>m. False) (new_wrapper False) Get ''books'' None books_env = Inl TypeError"
    using t[where m = Get and cnt = None] by simp
  have f: "\<exists>wr'. invoke (\<lambda>m. m = GetAllKeys) (new_wrapper False) GetKey ''books'' None
        (books_env\<lparr>env_request := Inr (Arr [KeyVal 1, KeyVal 2])\<rparr>) =
      Inr (wr', Fulfilled (KeyVal 1))"
    using emulated_reads[where native = "\<lambda>m. m = GetAllKeys" and wr = "new_wrapper False"
      and en = "books_env\<lparr>env_request := Inr (Arr [KeyVal 1, KeyVal 2])\<rparr>"
      and u = WrapperRef and es = books and n = 6 and m = GetKey and cnt = None
      and rest = "[TxnComplete]" and storeName = "''books''"
      and ks = "[KeyVal 1, KeyVal 2]"] o e books_env_events l
    by (simp add: books_env_def)
  from o e books_env_events l a b c d f show ?thesis by simp
qed

text \<open>
  C4 as stated fails for \<^verbatim>\<open>get\<close> and \<^verbatim>\<open>count\<close>: on a platform without them the
  prototype has no such method, and the call raises instead of producing a result.
\<close>

theorem emulated_reads_counterexample:
  "\<not> (\<lambda>m. m \<noteq> Get \<and> m \<noteq> Count) Get \<and> \<not> (\<lambda>m. m \<noteq> Get \<and> m \<noteq> Count) Count \<and>
   prototype (\<lambda>m. m \<noteq> Get \<and> m \<noteq> Count) Get = None \<and>
   prototype (\<lambda>m. m \<noteq> Get \<and> m \<noteq> Count) Count = None \<and>
   invoke (\<lambda>m. m \<noteq> Get \<and> m \<noteq> Count) (new_wrapper False) Get ''books'' None books_env =
     Inl TypeError \<and>
   invoke (\<lambda>m. m \<noteq> Get \<and> m \<noteq> Count) (new_wrapper False) Count ''books'' None books_env =
     Inl TypeError"
  by (simp add: invoke_def prototype_def methodsToWrap_def install_def class_methods_def)

section \<open>Further properties\<close>

text \<open>
  A failed open: the request reports the error \<open>e\<close> before the timer runs. The call is
  rejected with \<open>e\<close> and no connection is stored, whatever follows.
\<close>

lemma open_step_rejected:
  assumes "inner s = Rejected e" "outer s = Rejected e"
  shows "inner (open_step s ev) = Rejected e \<and> outer (open_step s ev) = Rejected e \<and>
     db (w (open_step s ev)) = db (w s)"
  using assms by (cases ev) (auto simp: open_step_def)

lemma foldl_open_step_rejected:
  "inner s = Rejected e \<Longrightarrow> outer s = Rejected e \<Longrightarrow>
   inner (foldl open_step s post) = Rejected e \<and>
   outer (foldl open_step s post) = Rejected e \<and>
   db (w (foldl open_step s post)) = db (w s)"
proof (induction post arbitrary: s)
  case Nil
  then show ?case by simp
next
  case (Cons ev post)
  note st = open_step_rejected[OF Cons.prems, of ev]
  from st have a: "inner (open_step s ev) = Rejected e" "outer (open_step s ev) = Rejected e"
    by simp_all
  from Cons.IH[OF a] st show ?case by simp
qed

theorem open_request_fails:
  assumes "db wr = None" and "list_all is_upgrade pre"
  shows "snd (open wr (pre @ OnError e # post)) = Rejected e \<and>
     db (fst (open wr (pre @ OnError e # post))) = None"
proof -
  let ?s0 = "open_init wr"
  let ?s1 = "foldl open_step ?s0 pre"
  let ?s2 = "open_step ?s1 (OnError e)"
  have i: "inner ?s0 = Pending" "outer ?s0 = Pending" "\<not> openRequestTimedOut ?s0"
    by (simp_all add: open_init_def)
  note p = foldl_open_step_upgrades[OF assms(2) i]
  from p have t: "inner ?s2 = Rejected e" "outer ?s2 = Rejected e"
    by (simp_all add: open_step_def open_resume_def)
  from p have d: "db (w ?s2) = db wr"
    by (simp add: open_step_def open_resume_def open_init_def)
  note q = foldl_open_step_rejected[OF t, of post]
  have run: "open_run wr (pre @ OnError e # post) = foldl open_step ?s2 post"
    by (simp add: open_run_def)
  show ?thesis using assms(1) q d by (simp add: open_def run)
qed

theorem open_request_fails_witness:
  "db (new_wrapper False) = None \<and> list_all is_upgrade [] \<and>
   open (new_wrapper False) ([] @ OnError (Native 9) # [TimerFires]) =
     (\<lparr>db = None, has_onupgradeneeded = False, native_opens = 1, closed = [],
       upgrade_aborts = [], upgrade_callbacks = [], versionchange_bound = [],
       txns = []\<rparr>, Rejected (Native 9))"
  using open_request_fails[of "new_wrapper False" "[]" "Native 9" "[TimerFires]"]
  by (simp add: open_def open_run_def open_init_def open_step_def open_resume_def
      new_wrapper_def)

lemma stops_at_closed:
  "stops_at cnt k es =
     (case cnt of
        None \<Rightarrow> None
      | Some c \<Rightarrow>
          if c = 0 then None
          else if nat (max 1 (c - int k)) \<le> length es
          then Some (es ! (nat (max 1 (c - int k)) - 1)) else None)"
proof (induction es arbitrary: k)
  case Nil
  then show ?case by (auto split: option.splits simp: max_def)
next
  case (Cons e es)
  show ?case
  proof (cases cnt)
    case None
    then show ?thesis using Cons.IH[of "Suc k"] by (simp add: count_reached_def)
  next
    case (Some c)
    show ?thesis
    proof (cases "c = 0")
      case True
      then show ?thesis using Some Cons.IH[of "Suc k"] by (simp add: count_reached_def)
    next
      case False
      show ?thesis
      proof (cases "c \<le> int (Suc k)")
        case True
        then have "nat (max 1 (c - int k)) = Suc 0" by (auto simp: max_def)
        then show ?thesis using Some False True by (simp add: count_reached_def)
      next
        case gt: False
        then have "nat (max 1 (c - int k)) = Suc (nat (max 1 (c - int (Suc k))))"
          by (auto simp: max_def)
        moreover from gt have "0 < nat (max 1 (c - int (Suc k)))" by (auto simp: max_def)
        ultimately show ?thesis
          using Some False gt Cons.IH[of "Suc k"] by (auto simp: count_reached_def)
      qed
    qed
  qed
qed

text \<open>
  The emulated \<^verbatim>\<open>getAll\<close>, run to its end: the values of the records in the order of
  the cursor, all of them without a count or with count 0, otherwise the first ones up to
  the count (one for a negative count).
\<close>

theorem getAll_emulation:
  assumes "snd (open wr oevs) = Fulfilled u" and "length es < n"
  shows "snd (getAll wr oevs storeName cnt None (Inr es) (replicate n ReqSuccess @ rest)) =
     Fulfilled (Arr (map entry_value
       (case cnt of None \<Rightarrow> es
        | Some c \<Rightarrow> if c = 0 then es else take (nat (max 1 c)) es)))"
proof -
  have "visited cnt 0 es =
      (case cnt of None \<Rightarrow> es | Some c \<Rightarrow> if c = 0 then es else take (nat (max 1 c)) es)"
    by (simp add: visited_closed split: option.splits)
  then show ?thesis
    using getAllMatching_complete[OF assms, of storeName cnt False rest]
    by (simp add: getAll_def case_prod_beta item_def)
qed

theorem getAll_emulation_witness:
  "snd (open (new_wrapper False) [OnSuccess 1]) = Fulfilled WrapperRef \<and> length books < 6 \<and>
   snd (getAll (new_wrapper False) [OnSuccess 1] ''books'' (Some 3) None (Inr books)
          (replicate 6 ReqSuccess @ [TxnComplete])) =
     Fulfilled (Arr [Data 101, Data 102, Data 103]) \<and>
   snd (getAll (new_wrapper False) [OnSuccess 1] ''books'' (Some 0) None (Inr books)
          (replicate 6 ReqSuccess @ [TxnComplete])) =
     Fulfilled (Arr [Data 101, Data 102, Data 103, Data 104, Data 105])"
proof -
  have o: "snd (open (new_wrapper False) [OnSuccess 1]) = Fulfilled WrapperRef"
    by (simp add: open_def open_run_def open_init_def open_step_def open_resume_def
        new_wrapper_def)
  have l: "length books < 6" by (simp add: books_def)
  note t = getAll_emulation[OF o l, of "''books''" _ "[TxnComplete]"]
  from o l t[of "Some 3"] t[of "Some 0"] show ?thesis by (simp add: books_def)
qed

text \<open>
  The emulated \<^verbatim>\<open>getAllKeys\<close> with a positive count \<open>c\<close>, run to its end. The array
  of \<^verbatim>\<open>getAllMatching\<close> holds the cursor object once per record visited, and the keys
  are read from it after the scan: every entry of the result is the key of the record at
  which the cursor stopped (the \<open>c\<close>-th record), or \<^verbatim>\<open>undefined\<close> when the cursor ran
  past the last record.
\<close>

theorem getAllKeys_emulation:
  assumes "snd (open wr oevs) = Fulfilled u" and "length es < n" and "0 < c"
  shows "snd (getAllKeys wr oevs storeName (Some c) None (Inr es)
            (replicate n ReqSuccess @ rest)) =
     Fulfilled (Arr (replicate (min (nat c) (length es))
       (if nat c \<le> length es then KeyVal (entry_key (es ! (nat c - 1))) else Undefined)))"
proof -
  have v: "visited (Some c) 0 es = take (nat c) es"
    using assms(3) by (simp add: visited_closed max_def)
  have s: "stops_at (Some c) 0 es =
      (if nat c \<le> length es then Some (es ! (nat c - 1)) else None)"
    using assms(3) by (simp add: stops_at_closed max_def)
  have "read_key (stops_at (Some c) 0 es) \<circ> item True =
      (\<lambda>e. read_key (stops_at (Some c) 0 es) CursorRef)"
    by (auto simp: item_def)
  then show ?thesis
    using getAllMatching_complete[OF assms(1,2), of storeName "Some c" True rest]
    by (simp add: getAllKeys_def case_prod_beta map_replicate_const v s min_def)
qed

theorem getAllKeys_emulation_witness:
  "snd (open (new_wrapper False) [OnSuccess 1]) = Fulfilled WrapperRef \<and> length books < 6 \<and>
   (0::int) < 3 \<and>
   snd (getAllKeys (new_wrapper False) [OnSuccess 1] ''books'' (Some 3) None (Inr books)
          (replicate 6 ReqSuccess @ [TxnComplete])) =
     Fulfilled (Arr [KeyVal 3, KeyVal 3, KeyVal 3])"
proof -
  have o: "snd (open (new_wrapper False) [OnSuccess 1]) = Fulfilled WrapperRef"
    by (simp add: open_def open_run_def open_init_def open_step_def open_resume_def
        new_wrapper_def)
  have l: "length books < 6" by (simp add: books_def)
  have c: "(0::int) < 3" by simp
  from o l getAllKeys_emulation[OF o l c, of "''books''" "[TxnComplete]"] show ?thesis
    by (simp add: books_def numeral_3_eq_3)
qed

end
